theory Spec2Isabelle
  imports Main "HOL-Library.Multiset"
begin

section \<open>Strings\<close>

text \<open>
  A JavaScript string is a sequence of UTF-16 code units; \<open>text[i]\<close>, \<open>length\<close>,
  \<open>trim\<close> and the regular expressions of the scripts all work on code units. A string is
  modelled as the list of its code units, each a natural number. \<open>js\<close> writes a
  literal.
\<close>

type_synonym cu = nat
type_synonym jstr = "cu list"

definition js :: "string \<Rightarrow> jstr" where
  "js s = map of_char s"

definition DQUOTE :: cu where "DQUOTE = 34"
definition COMMA :: cu where "COMMA = 44"
definition LF :: cu where "LF = 10"
definition CR :: cu where "CR = 13"

text \<open>
  The white space of \<open>String.prototype.trim\<close> and of the regular expression class
  \<open>\s\<close>: TAB, LF, VT, FF, CR, SPACE, U+00A0, U+1680, U+2000 to U+200A, U+2028, U+2029,
  U+202F, U+205F, U+3000 and U+FEFF.
\<close>

definition is_space :: "cu \<Rightarrow> bool" where
  "is_space c \<longleftrightarrow>
     c = 9 \<or> c = 10 \<or> c = 11 \<or> c = 12 \<or> c = 13 \<or> c = 32 \<or> c = 160 \<or> c = 5760 \<or>
     (8192 \<le> c \<and> c \<le> 8202) \<or> c = 8232 \<or> c = 8233 \<or> c = 8239 \<or> c = 8287 \<or>
     c = 12288 \<or> c = 65279"

definition trim :: "jstr \<Rightarrow> jstr" where
  "trim s = rev (dropWhile is_space (rev (dropWhile is_space s)))"

text \<open>\<open>r[i] || ""\<close>: an index past the end of the array reads \<open>undefined\<close>.\<close>

definition cell :: "jstr list \<Rightarrow> nat \<Rightarrow> jstr" where
  "cell r i = (if i < length r then r ! i else [])"

section \<open>Plain objects\<close>

text \<open>
  An object used as a dictionary (\<open>const o = {}\<close>, \<open>o[h] = v\<close>) is modelled by its own
  properties in creation order. Assigning to an existing name replaces the value and
  keeps the position. An assignment to the name \<open>__proto__\<close> goes to the setter
  inherited from \<open>Object.prototype\<close> and creates no own property.

  scripts/build-data.mjs reads its rows through \<open>hasOwnProperty\<close> and keeps its two
  indexes in \<open>Map\<close>s, so own properties are all that it sees. src/unnamed/part_000 and
  src/unnamed/part_001 read their rows and their indexes directly (\<open>row[k]\<close>,
  \<open>companyMap[key]\<close>, \<open>problemMap[key]\<close>), and such a read, of a name that is not an
  own property, goes on to \<open>Object.prototype\<close>: \<open>companyMap["constructor"]\<close> is the
  function \<open>Object\<close>. The definitions for these two scripts give the reads of own
  properties and of names that are no properties at all. \<open>inherited\<close> says which names
  they do not cover, and every statement about \<open>pick\<close> or the reconciliation of part_001
  that ranges over all rows or sheets has the hypothesis that no such name is read
  (\<open>plain_row\<close>, \<open>plain_aliases\<close>, \<open>plain_run\<close> below). part_000 is run on one set of
  sheets only.
\<close>

type_synonym 'v obj = "(jstr \<times> 'v) list"

definition obj_get :: "'v obj \<Rightarrow> jstr \<Rightarrow> 'v option" where
  "obj_get ob k = map_of ob k"

definition store :: "'v obj \<Rightarrow> jstr \<Rightarrow> 'v \<Rightarrow> 'v obj" where
  "store ob k v =
     (if k \<in> fst ` set ob then map (\<lambda>(k', v'). if k' = k then (k', v) else (k', v')) ob
      else ob @ [(k, v)])"

definition obj_put :: "'v obj \<Rightarrow> jstr \<Rightarrow> 'v \<Rightarrow> 'v obj" where
  "obj_put ob k v = (if k = js ''__proto__'' then ob else store ob k v)"

text \<open>The names of the properties of \<open>Object.prototype\<close>.\<close>

definition proto_names :: "jstr list" where
  "proto_names =
     [js ''constructor'', js ''__defineGetter__'', js ''__defineSetter__'', js ''hasOwnProperty'',
      js ''__lookupGetter__'', js ''__lookupSetter__'', js ''isPrototypeOf'',
      js ''propertyIsEnumerable'', js ''toString'', js ''valueOf'', js ''__proto__'',
      js ''toLocaleString'']"

definition inherited :: "jstr \<Rightarrow> bool" where
  "inherited k \<longleftrightarrow> k \<in> set proto_names"

text \<open>
  \<open>Object.keys\<close> and \<open>Object.values\<close> list the own properties whose names are array
  indices (canonical decimal numerals below \<open>2^32 - 1\<close>) first, in ascending order, and
  then the other names in creation order.
\<close>

definition decimal :: "jstr \<Rightarrow> nat" where
  "decimal k = foldl (\<lambda>n c. 10 * n + (c - 48)) 0 k"

definition array_index :: "jstr \<Rightarrow> nat option" where
  "array_index k =
     (if k \<noteq> [] \<and> list_all (\<lambda>c. 48 \<le> c \<and> c \<le> 57) k \<and> (k = [48] \<or> hd k \<noteq> 48)
         \<and> decimal k < 4294967295
      then Some (decimal k) else None)"

definition obj_entries :: "'v obj \<Rightarrow> (jstr \<times> 'v) list" where
  "obj_entries ob =
     sort_key (\<lambda>(k, v). the (array_index k)) (filter (\<lambda>(k, v). array_index k \<noteq> None) ob)
     @ filter (\<lambda>(k, v). array_index k = None) ob"

section \<open>parseCSV\<close>

text \<open>
  The character loop of \<open>parseCSV\<close> (scripts/build-data.mjs, lines 26 to 52; the same
  loop in src/unnamed/part_001), run on the text that is still unread. \<open>n\<close> is the
  head of the rest, and \<open>i++\<close> drops it.
\<close>

fun scan :: "jstr list list \<Rightarrow> jstr list \<Rightarrow> jstr \<Rightarrow> bool \<Rightarrow> jstr
    \<Rightarrow> jstr list list \<times> jstr list \<times> jstr" where
  "scan rows row cur inQuotes [] = (rows, row, cur)"
| "scan rows row cur inQuotes (c # text) =
     (if c = DQUOTE \<and> inQuotes \<and> (text \<noteq> [] \<and> hd text = DQUOTE) then
        scan rows row (cur @ [DQUOTE]) inQuotes (tl text)
      else if c = DQUOTE then
        scan rows row cur (\<not> inQuotes) text
      else if c = COMMA \<and> \<not> inQuotes then
        scan rows (row @ [cur]) [] inQuotes text
      else if (c = LF \<or> c = CR) \<and> \<not> inQuotes then
        scan (if \<exists>v \<in> set (row @ [cur]). trim v \<noteq> [] then rows @ [row @ [cur]] else rows)
          [] [] inQuotes
          (if c = CR \<and> (text \<noteq> [] \<and> hd text = LF) then tl text else text)
      else
        scan rows row (cur @ [c]) inQuotes text)"

text \<open>Lines 54 to 57: the row that no line break ended.\<close>

definition scan_rows :: "jstr \<Rightarrow> jstr list list" where
  "scan_rows text =
     (case scan [] [] [] False text of
        (rows, row, cur) \<Rightarrow> if cur \<noteq> [] \<or> row \<noteq> [] then rows @ [row @ [cur]] else rows)"

text \<open>
  Lines 59 to 67 of scripts/build-data.mjs: the first row is the header, a column with
  an empty header name is left out.
\<close>

definition mk_row :: "jstr list \<Rightarrow> jstr list \<Rightarrow> jstr obj" where
  "mk_row headers r =
     fold (\<lambda>(i, h) ob. if h = [] then ob else obj_put ob h (trim (cell r i)))
       (enumerate 0 headers) []"

definition parseCSV :: "jstr \<Rightarrow> jstr obj list" where
  "parseCSV text =
     (case scan_rows text of
        [] \<Rightarrow> []
      | header # rows \<Rightarrow> map (mk_row (map trim header)) rows)"

text \<open>
  The script of src/unnamed/part_001 (lines 34 to 41) keeps columns with an empty
  header name and filters the data rows once more.
\<close>

definition mk_row1 :: "jstr list \<Rightarrow> jstr list \<Rightarrow> jstr obj" where
  "mk_row1 headers r =
     fold (\<lambda>(i, h) ob. obj_put ob h (trim (cell r i))) (enumerate 0 headers) []"

definition parseCSV1 :: "jstr \<Rightarrow> jstr obj list" where
  "parseCSV1 text =
     (case scan_rows text of
        [] \<Rightarrow> []
      | header # rows \<Rightarrow>
          map (mk_row1 (map trim header)) (filter (\<lambda>r. \<exists>v \<in> set r. trim v \<noteq> []) rows))"

section \<open>Field resolver and normalisation (scripts/build-data.mjs)\<close>

datatype error =
    TypeError
  | EmptySheet jstr
  | MissingColumns jstr "jstr list"

text \<open>
  \<open>pick\<close>, lines 70 to 75, on a row object: the loop over the aliases. A cell value is a
  string, so \<open>String(obj[k] || "")\<close> is the value itself.
\<close>

fun pick_row :: "jstr obj \<Rightarrow> jstr list \<Rightarrow> jstr" where
  "pick_row ob [] = []"
| "pick_row ob (k # keys) =
     (case obj_get ob k of
        Some v \<Rightarrow> if trim v \<noteq> [] then trim v else pick_row ob keys
      | None \<Rightarrow> pick_row ob keys)"

text \<open>
  \<open>pick\<close> with a row that may be missing (\<open>undefined\<close>, here \<open>None\<close>):
  \<open>Object.prototype.hasOwnProperty.call(undefined, k)\<close> throws a TypeError at the
  first alias; with no alias the loop body never runs.
\<close>

definition pick :: "jstr obj option \<Rightarrow> jstr list \<Rightarrow> error + jstr" where
  "pick row keys =
     (case row of
        None \<Rightarrow> if keys = [] then Inr [] else Inl TypeError
      | Some ob \<Rightarrow> Inr (pick_row ob keys))"

text \<open>
  \<open>norm\<close>, line 77. \<open>String.prototype.toLowerCase\<close> is the Unicode case mapping of
  the JavaScript runtime; it is the parameter \<open>lc\<close> of every definition that
  normalises.
\<close>

definition norm :: "(jstr \<Rightarrow> jstr) \<Rightarrow> jstr \<Rightarrow> jstr" where
  "norm lc x = lc (trim x)"

definition is_lower_digit :: "cu \<Rightarrow> bool" where
  "is_lower_digit c \<longleftrightarrow> (97 \<le> c \<and> c \<le> 122) \<or> (48 \<le> c \<and> c \<le> 57)"

text \<open>\<open>replace(/[^a-z0-9]+/g, "-")\<close>: every maximal run becomes one hyphen.\<close>

fun dash_runs :: "jstr \<Rightarrow> jstr" where
  "dash_runs [] = []"
| "dash_runs [c] = [if is_lower_digit c then c else 45]"
| "dash_runs (c # d # s) =
     (if is_lower_digit c then c # dash_runs (d # s)
      else if is_lower_digit d then 45 # dash_runs (d # s)
      else dash_runs (d # s))"

definition slug :: "(jstr \<Rightarrow> jstr) \<Rightarrow> jstr \<Rightarrow> jstr" where
  "slug lc x =
     rev (dropWhile (\<lambda>c. c = 45) (rev (dropWhile (\<lambda>c. c = 45)
       (dash_runs (concat (map (\<lambda>c. if c = 38 then js ''and'' else [c]) (norm lc x)))))))"

text \<open>\<open>replace(/\s+/g, "-")\<close> of line 126.\<close>

fun space_runs :: "cu \<Rightarrow> jstr \<Rightarrow> jstr" where
  "space_runs r [] = []"
| "space_runs r [c] = [if is_space c then r else c]"
| "space_runs r (c # d # s) =
     (if \<not> is_space c then c # space_runs r (d # s)
      else if \<not> is_space d then r # space_runs r (d # s)
      else space_runs r (d # s))"

text \<open>\<open>split("|")\<close>: the pieces between the separators; the empty string gives one empty piece.\<close>

fun split :: "cu \<Rightarrow> jstr \<Rightarrow> jstr list" where
  "split sep [] = [[]]"
| "split sep (c # s) =
     (if c = sep then [] # split sep s
      else (case split sep s of p # ps \<Rightarrow> (c # p) # ps | [] \<Rightarrow> [[c]]))"

section \<open>Reconciliation (scripts/build-data.mjs)\<close>

text \<open>
  The records of lines 111 to 115 and 125 to 137. The field \<open>id\<close> of a company is
  \<open>id_field\<close> here, \<open>id\<close> being the identity function of HOL.
\<close>

record problem =
  problem :: jstr
  solution :: jstr
  feature :: jstr

record company =
  id_field :: jstr
  name :: jstr
  website :: jstr
  location :: jstr
  target :: jstr
  org_types :: "jstr list"
  solutions :: "problem list"
  problems :: "jstr list"

text \<open>
  A \<open>Map\<close> is the list of its entries in insertion order; \<open>set\<close> on a key that is
  there replaces the value in place (\<open>store\<close>), \<open>get\<close> is \<open>map_of\<close>, \<open>values()\<close> is
  \<open>map snd\<close>.
\<close>

text \<open>Lines 107 to 116.\<close>

definition add_problem :: "(jstr \<Rightarrow> jstr) \<Rightarrow> jstr obj \<Rightarrow> (jstr \<times> problem) list
    \<Rightarrow> (jstr \<times> problem) list" where
  "add_problem lc p pm =
     (let prob = pick_row p [js ''Problem''] in
      if prob = [] then pm
      else store pm (norm lc prob)
             \<lparr>problem = prob,
              solution = pick_row p [js ''Solution''],
              feature = pick_row p [js ''Feature'', js ''OpenRecovery Feature'']\<rparr>)"

definition problemMap_of :: "(jstr \<Rightarrow> jstr) \<Rightarrow> jstr obj list \<Rightarrow> (jstr \<times> problem) list" where
  "problemMap_of lc rows = fold (add_problem lc) rows []"

text \<open>Lines 119 to 138.\<close>

definition org_types_of :: "jstr \<Rightarrow> jstr list" where
  "org_types_of v = filter (\<lambda>x. x \<noteq> []) (map trim (split 124 v))"

definition mk_company :: "(jstr \<Rightarrow> jstr) \<Rightarrow> jstr obj \<Rightarrow> company" where
  "mk_company lc c =
     (let nm = pick_row c [js ''Company Name'', js ''Company''];
          key = norm lc nm
      in \<lparr>id_field =
            (if pick_row c [js ''Company ID''] \<noteq> [] then pick_row c [js ''Company ID'']
             else if slug lc nm \<noteq> [] then slug lc nm
             else space_runs 45 key),
          name = nm,
          website = pick_row c [js ''Website'', js ''URL''],
          location = pick_row c [js ''Location''],
          target = pick_row c [js ''Target'', js ''Target Audience''],
          org_types = org_types_of (pick_row c [js ''Org Types'', js ''Org Type'', js ''Category'']),
          solutions = [],
          problems = []\<rparr>)"

definition add_company :: "(jstr \<Rightarrow> jstr) \<Rightarrow> jstr obj \<Rightarrow> (jstr \<times> company) list
    \<Rightarrow> (jstr \<times> company) list" where
  "add_company lc c cm =
     (let nm = pick_row c [js ''Company Name'', js ''Company''] in
      if nm = [] then cm else store cm (norm lc nm) (mk_company lc c))"

definition companyMap_of :: "(jstr \<Rightarrow> jstr) \<Rightarrow> jstr obj list \<Rightarrow> (jstr \<times> company) list" where
  "companyMap_of lc rows = fold (add_company lc) rows []"

text \<open>
  Lines 141 to 166. The loop changes the company objects held by \<open>companyMap\<close> and the
  two counters; \<open>problemMap\<close> is only read.
\<close>

record state =
  companyMap :: "(jstr \<times> company) list"
  missingCompany :: nat
  missingProblem :: nat

definition attach :: "(jstr \<Rightarrow> jstr) \<Rightarrow> (jstr \<times> problem) list \<Rightarrow> jstr obj \<Rightarrow> state \<Rightarrow> state" where
  "attach lc pm s st =
     (let cname = norm lc (pick_row s [js ''Company Name'', js ''Company'']);
          probRaw = pick_row s [js ''Problem'', js ''Common Problem'']
      in if cname = [] \<or> probRaw = [] then st
         else (case map_of (companyMap st) cname of
                 None \<Rightarrow> st\<lparr>missingCompany := missingCompany st + 1\<rparr>
               | Some co \<Rightarrow>
                   (case map_of pm (norm lc probRaw) of
                      None \<Rightarrow> st\<lparr>missingProblem := missingProblem st + 1\<rparr>
                    | Some p \<Rightarrow>
                        if \<exists>x \<in> set (solutions co). norm lc (problem x) = norm lc (problem p)
                        then st
                        else st\<lparr>companyMap :=
                               store (companyMap st) cname
                                 (co\<lparr>solutions := solutions co @ [p]\<rparr>)\<rparr>)))"

text \<open>Shorthand for \<open>cname\<close> and \<open>probRaw\<close> of a link row and for the name of a company row.\<close>

abbreviation cname_of :: "(jstr \<Rightarrow> jstr) \<Rightarrow> jstr obj \<Rightarrow> jstr" where
  "cname_of lc s \<equiv> norm lc (pick_row s [js ''Company Name'', js ''Company''])"

abbreviation probRaw_of :: "jstr obj \<Rightarrow> jstr" where
  "probRaw_of s \<equiv> pick_row s [js ''Problem'', js ''Common Problem'']"

abbreviation name_of :: "jstr obj \<Rightarrow> jstr" where
  "name_of c \<equiv> pick_row c [js ''Company Name'', js ''Company'']"

definition attach_all :: "(jstr \<Rightarrow> jstr) \<Rightarrow> (jstr \<times> problem) list \<Rightarrow> jstr obj list \<Rightarrow> state \<Rightarrow> state" where
  "attach_all lc pm links st = fold (attach lc pm) links st"

text \<open>Lines 169 to 174: the derived list and the document that is written.\<close>

definition derive :: "company \<Rightarrow> company" where
  "derive c = c\<lparr>problems := map problem (solutions c)\<rparr>"

record written =
  companies :: "company list"
  reported_missingCompany :: nat
  reported_missingProblem :: nat

definition reconcile :: "(jstr \<Rightarrow> jstr) \<Rightarrow> jstr obj list \<Rightarrow> jstr obj list \<Rightarrow> jstr obj list \<Rightarrow> written" where
  "reconcile lc companyRows problemRows linkRows =
     (let pm = problemMap_of lc problemRows;
          st = attach_all lc pm linkRows
                 \<lparr>companyMap = companyMap_of lc companyRows, missingCompany = 0, missingProblem = 0\<rparr>
      in \<lparr>companies = map (derive \<circ> snd) (companyMap st),
          reported_missingCompany = missingCompany st,
          reported_missingProblem = missingProblem st\<rparr>)"

text \<open>
  \<open>loadCSV\<close> after the fetch (lines 17 to 22) and \<open>assertHas\<close> (lines 90 to 100), then
  the script from line 85 on, as a function of the three CSV texts.
\<close>

definition loadCSV :: "jstr \<Rightarrow> jstr \<Rightarrow> error + jstr obj list" where
  "loadCSV sheetName text =
     (let rows = parseCSV text in if rows = [] then Inl (EmptySheet sheetName) else Inr rows)"

definition assertHas :: "jstr \<Rightarrow> jstr obj list \<Rightarrow> jstr list \<Rightarrow> error + unit" where
  "assertHas sheetName rows required =
     (let first = (case rows of [] \<Rightarrow> [] | r # _ \<Rightarrow> r);
          missing = filter (\<lambda>h. obj_get first h = None) required
      in if missing \<noteq> [] then Inl (MissingColumns sheetName missing) else Inr ())"

definition build_data :: "(jstr \<Rightarrow> jstr) \<Rightarrow> jstr \<Rightarrow> jstr \<Rightarrow> jstr \<Rightarrow> error + written" where
  "build_data lc companiesText problemsText linksText =
     (case loadCSV (js ''Companies'') companiesText of Inl e \<Rightarrow> Inl e | Inr cs \<Rightarrow>
      case loadCSV (js ''Problems'') problemsText of Inl e \<Rightarrow> Inl e | Inr ps \<Rightarrow>
      case loadCSV (js ''Company Solutions'') linksText of Inl e \<Rightarrow> Inl e | Inr ls \<Rightarrow>
      case assertHas (js ''Companies'') cs [js ''Company Name''] of Inl e \<Rightarrow> Inl e | Inr _ \<Rightarrow>
      case assertHas (js ''Problems'') ps [js ''Problem'', js ''Solution'', js ''Feature''] of
        Inl e \<Rightarrow> Inl e | Inr _ \<Rightarrow>
      case assertHas (js ''Company Solutions'') ls [js ''Company Name'', js ''Problem''] of
        Inl e \<Rightarrow> Inl e | Inr _ \<Rightarrow>
      Inr (reconcile lc cs ps ls))"

text \<open>The ASCII part of \<open>toLowerCase\<close>, to run the definitions on ASCII texts.\<close>

definition ascii_lower :: "jstr \<Rightarrow> jstr" where
  "ascii_lower s = map (\<lambda>c. if 65 \<le> c \<and> c \<le> 90 then c + 32 else c) s"

section \<open>The script of src/unnamed/part_001\<close>

text \<open>
  \<open>keyify\<close>, lines 50 to 59. \<open>keyify_chars\<close> is the chain of \<open>replace\<close> calls that work
  code unit by code unit (lines 52 to 56), \<open>space_runs 32\<close> is \<open>replace(/\s+/g, " ")\<close>.
\<close>

definition keyify_chars :: "jstr \<Rightarrow> jstr" where
  "keyify_chars s =
     map (\<lambda>c. if c = 45 \<or> c = 95 then 32 else c)
       (filter (\<lambda>c. is_lower_digit c \<or> is_space c \<or> c = 45)
         (map (\<lambda>c. if c = 8216 \<or> c = 8217 then 39 else c)
           (map (\<lambda>c. if c = 8220 \<or> c = 8221 then 34 else c)
             (map (\<lambda>c. if c = 160 then 32 else c) s))))"

definition keyify :: "(jstr \<Rightarrow> jstr) \<Rightarrow> jstr \<Rightarrow> jstr" where
  "keyify lc x = trim (space_runs 32 (keyify_chars (norm lc x)))"

text \<open>
  \<open>pick\<close>, lines 63 to 77. The table from lower-cased header names to header names is
  built by \<open>Object.fromEntries\<close> from \<open>Object.keys(row)\<close>, so of two headers with the
  same lower-cased name the later one is kept. The script keeps the table on the row
  as the property \<open>__keyMap\<close>; the model computes it anew, which is the same for a
  row with no column of that name and a list of aliases without it (\<open>plain_row\<close>,
  \<open>plain_aliases\<close>). A header name that is empty is falsy and so is not followed.
\<close>

definition keyMap :: "(jstr \<Rightarrow> jstr) \<Rightarrow> jstr obj \<Rightarrow> jstr obj" where
  "keyMap lc row = fold (\<lambda>k m. store m (lc (trim k)) k) (map fst (obj_entries row)) []"

text \<open>
  Lines 70 to 74, for one alias: the value under the alias itself, or else the value under
  the header that the table gives for the lower-cased alias.
\<close>

definition lookup1 :: "(jstr \<Rightarrow> jstr) \<Rightarrow> jstr obj \<Rightarrow> jstr \<Rightarrow> jstr option" where
  "lookup1 lc row k =
     (case (case obj_get row k of
              Some direct \<Rightarrow> if trim direct \<noteq> [] then Some (trim direct) else None
            | None \<Rightarrow> None) of
        Some v \<Rightarrow> Some v
      | None \<Rightarrow>
          (case obj_get (keyMap lc row) (lc (trim k)) of
             Some real \<Rightarrow>
               (case obj_get row real of
                  Some v \<Rightarrow> if real \<noteq> [] \<and> trim v \<noteq> [] then Some (trim v) else None
                | None \<Rightarrow> None)
           | None \<Rightarrow> None))"

fun pick1_row :: "(jstr \<Rightarrow> jstr) \<Rightarrow> jstr obj \<Rightarrow> jstr list \<Rightarrow> jstr" where
  "pick1_row lc row [] = []"
| "pick1_row lc row (k # keys) =
     (case lookup1 lc row k of Some v \<Rightarrow> v | None \<Rightarrow> pick1_row lc row keys)"

text \<open>Line 64: a missing row gives the empty string.\<close>

definition pick1 :: "(jstr \<Rightarrow> jstr) \<Rightarrow> jstr obj option \<Rightarrow> jstr list \<Rightarrow> jstr" where
  "pick1 lc row keys = (case row of None \<Rightarrow> [] | Some ob \<Rightarrow> pick1_row lc ob keys)"

text \<open>
  The rows and aliases for which \<open>lookup1\<close> is \<open>pick\<close> of part_001: the row has no
  column named \<open>__keyMap\<close>, so that the table is the one computed from the header
  names; and no alias \<open>k\<close> is \<open>__keyMap\<close> or the name of a property of
  \<open>Object.prototype\<close>, nor is its trimmed and lower-cased form, so that \<open>row[k]\<close> and
  \<open>map[k.trim().toLowerCase()]\<close> read an own property or \<open>undefined\<close>.
\<close>

definition plain_row :: "jstr obj \<Rightarrow> bool" where
  "plain_row row \<longleftrightarrow> js ''__keyMap'' \<notin> fst ` set row"

definition plain_aliases :: "(jstr \<Rightarrow> jstr) \<Rightarrow> jstr list \<Rightarrow> bool" where
  "plain_aliases lc keys \<longleftrightarrow>
     (\<forall>k \<in> set keys. k \<noteq> js ''__keyMap'' \<and> \<not> inherited k \<and> \<not> inherited (lc (trim k)))"

abbreviation id1_of :: "(jstr \<Rightarrow> jstr) \<Rightarrow> jstr obj \<Rightarrow> jstr" where
  "id1_of lc r \<equiv> pick1_row lc r [js ''Company ID'', js ''ID'']"

abbreviation name1_of :: "(jstr \<Rightarrow> jstr) \<Rightarrow> jstr obj \<Rightarrow> jstr" where
  "name1_of lc r \<equiv> pick1_row lc r [js ''Company Name'', js ''Name'']"

record company1 =
  id1 :: jstr
  name1 :: jstr
  website1 :: jstr
  location1 :: jstr
  target1 :: jstr
  org_types1 :: "jstr list"
  solutions1 :: "problem list"

text \<open>Lines 87 to 103.\<close>

definition add_problem1 :: "(jstr \<Rightarrow> jstr) \<Rightarrow> jstr obj \<Rightarrow> problem obj \<times> nat \<Rightarrow> problem obj \<times> nat" where
  "add_problem1 lc r acc =
     (case acc of (pm, problemsCount) \<Rightarrow>
        let prob = pick1_row lc r [js ''Problem'', js ''Common Problem'', js ''Common Problem ''] in
        if prob = [] then (pm, problemsCount)
        else (obj_put pm (keyify lc prob)
                \<lparr>problem = prob,
                 solution = pick1_row lc r [js ''Solution'', js ''Our Solution''],
                 feature = pick1_row lc r
                   [js ''OpenRecovery Feature'', js ''Open Recovery Feature'', js ''Feature'']\<rparr>,
              problemsCount + 1))"

text \<open>Lines 106 to 126.\<close>

definition mk_company1 :: "(jstr \<Rightarrow> jstr) \<Rightarrow> jstr obj \<Rightarrow> company1" where
  "mk_company1 lc r =
     \<lparr>id1 = pick1_row lc r [js ''Company ID'', js ''ID''],
      name1 = pick1_row lc r [js ''Company Name'', js ''Name''],
      website1 = pick1_row lc r [js ''Website'', js ''URL''],
      location1 = pick1_row lc r [js ''Location''],
      target1 = pick1_row lc r [js ''Target''],
      org_types1 = org_types_of (pick1_row lc r [js ''Org Types'', js ''Org Types '']),
      solutions1 = []\<rparr>"

definition add_company1 :: "(jstr \<Rightarrow> jstr) \<Rightarrow> jstr obj \<Rightarrow> company1 obj \<Rightarrow> company1 obj" where
  "add_company1 lc r cm =
     (if pick1_row lc r [js ''Company ID'', js ''ID''] = []
         \<or> pick1_row lc r [js ''Company Name'', js ''Name''] = [] then cm
      else obj_put cm (norm lc (pick1_row lc r [js ''Company ID'', js ''ID''])) (mk_company1 lc r))"

definition companyMap1_of :: "(jstr \<Rightarrow> jstr) \<Rightarrow> jstr obj list \<Rightarrow> company1 obj" where
  "companyMap1_of lc rows = fold (add_company1 lc) rows []"

text \<open>
  Lines 129 to 157. \<open>find_company1\<close> is lines 137 to 139: the company under the id key,
  or else the first company, in the order of \<open>Object.values\<close>, with the same normalised
  name; it returns the name of the property that holds the company with the company.
  \<open>unmatchedProblems\<close> is a \<open>Set\<close>: its elements in insertion order.
\<close>

record state1 =
  companyMap1 :: "company1 obj"
  matchedLinks :: nat
  unmatchedCompanies :: nat
  unmatchedProblems :: "jstr list"

definition find_company1 :: "(jstr \<Rightarrow> jstr) \<Rightarrow> company1 obj \<Rightarrow> jstr obj \<Rightarrow> (jstr \<times> company1) option" where
  "find_company1 lc cm r =
     (let cidKey = norm lc (pick1_row lc r [js ''Company ID'', js ''ID'']);
          cname = norm lc (pick1_row lc r [js ''Company Name'', js ''Company''])
      in case (if cidKey \<noteq> [] then obj_get cm cidKey else None) of
           Some co \<Rightarrow> Some (cidKey, co)
         | None \<Rightarrow> find (\<lambda>(k, c). norm lc (name1 c) = cname) (obj_entries cm))"

definition link1 :: "(jstr \<Rightarrow> jstr) \<Rightarrow> problem obj \<Rightarrow> jstr obj \<Rightarrow> state1 \<Rightarrow> state1" where
  "link1 lc pm r st =
     (case find_company1 lc (companyMap1 st) r of
        None \<Rightarrow> st\<lparr>unmatchedCompanies := unmatchedCompanies st + 1\<rparr>
      | Some (k, co) \<Rightarrow>
          (let problemText = pick1_row lc r [js ''Problem'', js ''Common Problem''] in
           case obj_get pm (keyify lc problemText) of
             None \<Rightarrow>
               if problemText \<noteq> [] \<and> problemText \<notin> set (unmatchedProblems st)
               then st\<lparr>unmatchedProblems := unmatchedProblems st @ [problemText]\<rparr>
               else st
           | Some p \<Rightarrow>
               if \<exists>x \<in> set (solutions1 co). keyify lc (problem x) = keyify lc (problem p)
               then st
               else st\<lparr>companyMap1 := store (companyMap1 st) k
                                       (co\<lparr>solutions1 := solutions1 co @ [p]\<rparr>),
                       matchedLinks := matchedLinks st + 1\<rparr>))"

text \<open>Line 160 and the counters that the script prints.\<close>

record written1 =
  companies1 :: "company1 list"
  reported_problemsCount :: nat
  reported_matchedLinks :: nat
  reported_unmatchedCompanies :: nat
  reported_unmatchedProblems :: "jstr list"

definition reconcile1 :: "(jstr \<Rightarrow> jstr) \<Rightarrow> jstr obj list \<Rightarrow> jstr obj list \<Rightarrow> jstr obj list \<Rightarrow> written1" where
  "reconcile1 lc companiesRows problemsRows linksRows =
     (case fold (add_problem1 lc) problemsRows ([], 0) of (pm, problemsCount) \<Rightarrow>
        let st = fold (link1 lc pm) linksRows
                   \<lparr>companyMap1 = companyMap1_of lc companiesRows, matchedLinks = 0,
                    unmatchedCompanies = 0, unmatchedProblems = []\<rparr>
        in \<lparr>companies1 = map snd (obj_entries (companyMap1 st)),
            reported_problemsCount = problemsCount,
            reported_matchedLinks = matchedLinks st,
            reported_unmatchedCompanies = unmatchedCompanies st,
            reported_unmatchedProblems = unmatchedProblems st\<rparr>)"

text \<open>
  The runs of part_001 in which every read of a row or of an index finds an own property
  or \<open>undefined\<close>: no row of the three sheets has a column named \<open>__keyMap\<close>; no
  company row that is written has the id key \<open>__proto__\<close>, which line 114 would make the
  prototype of the index; and no link row has, as its id key (line 138) or as the key of
  its problem (line 144), the name of a property of \<open>Object.prototype\<close> that is not a
  key of the index that is read. The aliases of the script are the literal lists of its
  \<open>pick\<close> calls; \<open>toLowerCase\<close> maps none of them to such a name.
\<close>

definition own_or_missing :: "'v obj \<Rightarrow> jstr \<Rightarrow> bool" where
  "own_or_missing ob k \<longleftrightarrow> k \<in> fst ` set ob \<or> \<not> inherited k"

definition plain_run :: "(jstr \<Rightarrow> jstr) \<Rightarrow> jstr obj list \<Rightarrow> jstr obj list \<Rightarrow> jstr obj list \<Rightarrow> bool" where
  "plain_run lc companiesRows problemsRows linksRows \<longleftrightarrow>
     (\<forall>r \<in> set (companiesRows @ problemsRows @ linksRows). plain_row r)
     \<and> (\<forall>r \<in> set companiesRows. id1_of lc r \<noteq> [] \<and> name1_of lc r \<noteq> [] \<longrightarrow>
           norm lc (id1_of lc r) \<noteq> js ''__proto__'')
     \<and> (\<forall>r \<in> set linksRows.
           own_or_missing (companyMap1_of lc companiesRows) (norm lc (id1_of lc r))
           \<and> own_or_missing (fst (fold (add_problem1 lc) problemsRows ([], 0)))
                 (keyify lc (pick1_row lc r [js ''Problem'', js ''Common Problem''])))"

section \<open>The script of src/unnamed/part_000\<close>









section \<open>Auxiliary notions\<close>

text \<open>\<open>Array.prototype.join\<close> with a separator of one code unit.\<close>

fun join :: "cu \<Rightarrow> jstr list \<Rightarrow> jstr" where
  "join sep [] = []"
| "join sep [p] = p"
| "join sep (p # q # ps) = p @ sep # join sep (q # ps)"

text \<open>
  Modelled from the spec: the serializer of the round-trip property (spec section 8),
  which the repository does not have. It writes RFC 4180 text: a field that holds a
  comma, a double quote, a carriage return or a line feed is enclosed in double quotes
  and every double quote in it is doubled; the fields of a row are joined with commas;
  every row ends with CR LF.
\<close>

definition needs_quotes :: "jstr \<Rightarrow> bool" where
  "needs_quotes f = list_ex (\<lambda>c. c = COMMA \<or> c = DQUOTE \<or> c = CR \<or> c = LF) f"

definition escape :: "jstr \<Rightarrow> jstr" where
  "escape f = concat (map (\<lambda>c. if c = DQUOTE then [DQUOTE, DQUOTE] else [c]) f)"

definition quote_field :: "jstr \<Rightarrow> jstr" where
  "quote_field f = (if needs_quotes f then DQUOTE # escape f @ [DQUOTE] else f)"

definition serialize_row :: "jstr list \<Rightarrow> jstr" where
  "serialize_row r = join COMMA (map quote_field r) @ [CR, LF]"

definition serialize :: "jstr list list \<Rightarrow> jstr" where
  "serialize rows = concat (map serialize_row rows)"

text \<open>The same text without the line break after the last row, which RFC 4180 allows.\<close>

definition serialize_open :: "jstr list list \<Rightarrow> jstr" where
  "serialize_open rows =
     (case rows of [] \<Rightarrow> []
      | _ \<Rightarrow> serialize (butlast rows) @ join COMMA (map quote_field (last rows)))"

text \<open>A row that \<open>parseCSV\<close> takes for blank has no cell with anything but white space.\<close>

definition nonblank :: "jstr list \<Rightarrow> bool" where
  "nonblank r = list_ex (\<lambda>v. trim v \<noteq> []) r"

text \<open>A string in which no white space follows white space.\<close>

fun spaced :: "jstr \<Rightarrow> bool" where
  "spaced [] = True"
| "spaced [c] = True"
| "spaced (c # d # s) = (\<not> (is_space c \<and> is_space d) \<and> spaced (d # s))"

text \<open>An index with the solutions of every company taken away.\<close>

abbreviation shape :: "(jstr \<times> company) list \<Rightarrow> (jstr \<times> company) list" where
  "shape cm \<equiv> map (\<lambda>(k, c). (k, c\<lparr>solutions := []\<rparr>)) cm"

abbreviation shape1 :: "company1 obj \<Rightarrow> company1 obj" where
  "shape1 cm \<equiv> map (\<lambda>(k, c). (k, c\<lparr>solutions1 := []\<rparr>)) cm"

section \<open>Evaluation\<close>

lemmas csv_eval =
  parseCSV_def parseCSV1_def scan_rows_def mk_row_def mk_row1_def obj_put_def store_def
  obj_get_def cell_def trim_def is_space_def js_def DQUOTE_def COMMA_def LF_def CR_def

section \<open>Blank rows\<close>

text \<open>
  Claim C6. parseCSV drops every blank row, also a last row that no line break ends.
  In scripts/build-data.mjs the test \<open>row.some((v) => v.trim())\<close> guards the rows that
  a line break ends (line 47); the last row is pushed without it (lines 54 to 57). On
  the text of a header \<open>a\<close>, a line feed and one space, the blank last row comes out as
  a row whose only cell is empty. src/unnamed/part_001 filters its rows once more and
  returns no row for the same text. A last row that is not blank is a row in both.
\<close>

theorem parseCSV_blank_last_row_kept:
  "parseCSV (js ''a\<newline> '') = [[(js ''a'', [])]] \<and> parseCSV1 (js ''a\<newline> '') = []
   \<and> parseCSV (js ''a\<newline>x'') = [[(js ''a'', js ''x'')]]
   \<and> parseCSV1 (js ''a\<newline>x'') = [[(js ''a'', js ''x'')]]"
  by (simp add: csv_eval)

section \<open>Maps and indexes\<close>

lemma map_of_store: "map_of (store ob k v) k' = (if k' = k then Some v else map_of ob k')"
proof (cases "k \<in> fst ` set ob")
  case True
  have "map_of (map (\<lambda>(k', v'). if k' = k then (k', v) else (k', v')) ob) k'
        = (if k' = k then (if k \<in> fst ` set ob then Some v else None) else map_of ob k')"
    by (induction ob) (auto split: if_splits)
  with True show ?thesis by (simp add: store_def)
next
  case False
  then have "map_of ob k = None" by (simp add: map_of_eq_None_iff)
  with False show ?thesis by (auto simp: store_def map_add_def split: option.splits)
qed

lemma keys_store: "map fst (store ob k v) = (if k \<in> fst ` set ob then map fst ob else map fst ob @ [k])"
proof -
  have "map fst (map (\<lambda>(k', v'). if k' = k then (k', v) else (k', v')) ob) = map fst ob"
    by (induction ob) auto
  then show ?thesis by (simp add: store_def)
qed

lemma distinct_store: "distinct (map fst ob) \<Longrightarrow> distinct (map fst (store ob k v))"
  by (auto simp: keys_store)

lemma set_store_subset: "(k', v') \<in> set (store ob k v) \<Longrightarrow> (k', v') \<in> set ob \<or> (k' = k \<and> v' = v)"
  by (auto simp: store_def split: if_splits)

lemma map_of_keyD: "map_of ob k = Some v \<Longrightarrow> k \<in> fst ` set ob"
  by (metis domI dom_map_of_conv_image_fst)

lemma find_app: "find P (xs @ ys) = (case find P xs of None \<Rightarrow> find P ys | Some x \<Rightarrow> Some x)"
  by (induction xs) auto

declare pick_row.simps [simp del] pick1_row.simps [simp del]

lemma fold_store_distinct:
  "distinct (map fst m) \<Longrightarrow>
   distinct (map fst (fold (\<lambda>r m. if skip r then m else store m (key r) (val r)) rows m))"
  by (induction rows arbitrary: m) (simp_all add: distinct_store)

lemma fold_store_lookup:
  "map_of (fold (\<lambda>r m. if skip r then m else store m (key r) (val r)) rows m) k =
     (case find (\<lambda>r. \<not> skip r \<and> key r = k) (rev rows) of
        Some r \<Rightarrow> Some (val r)
      | None \<Rightarrow> map_of m k)"
proof (induction rows arbitrary: m)
  case Nil
  then show ?case by simp
next
  case (Cons r rows)
  show ?case
    by (simp add: Cons.IH find_app map_of_store split: option.splits)
qed

lemma fold_store_keys:
  "fst ` set (fold (\<lambda>r m. if skip r then m else store m (key r) (val r)) rows m) =
     fst ` set m \<union> {key r | r. r \<in> set rows \<and> \<not> skip r}"
proof (induction rows arbitrary: m)
  case Nil
  then show ?case by simp
next
  case (Cons r rows)
  have "fst ` set (store m (key r) (val r)) = insert (key r) (fst ` set m)"
  proof -
    have "fst ` set (store m (key r) (val r)) = set (map fst (store m (key r) (val r)))"
      by simp
    also have "\<dots> = insert (key r) (fst ` set m)"
      unfolding keys_store by auto
    finally show ?thesis .
  qed
  then show ?case by (auto simp: Cons.IH)
qed

subsection \<open>The company index\<close>

lemma add_company_fold:
  "add_company lc = (\<lambda>r m. if pick_row r [js ''Company Name'', js ''Company''] = [] then m
       else store m (norm lc (pick_row r [js ''Company Name'', js ''Company''])) (mk_company lc r))"
  by (intro ext) (simp add: add_company_def Let_def)

lemma companyMap_of_distinct: "distinct (map fst (companyMap_of lc rows))"
  unfolding companyMap_of_def add_company_fold by (rule fold_store_distinct) simp

lemma companyMap_of_lookup:
  "map_of (companyMap_of lc rows) k =
     (case find (\<lambda>r. pick_row r [js ''Company Name'', js ''Company''] \<noteq> []
                     \<and> norm lc (pick_row r [js ''Company Name'', js ''Company'']) = k) (rev rows) of
        Some r \<Rightarrow> Some (mk_company lc r)
      | None \<Rightarrow> None)"
  unfolding companyMap_of_def add_company_fold by (simp add: fold_store_lookup split: option.splits)


subsection \<open>The attach loop\<close>

lemma attach_skip:
  "cname_of lc s = [] \<or> probRaw_of s = [] \<Longrightarrow> attach lc pm s st = st"
  by (auto simp: attach_def)


lemma attach_keys: "map fst (companyMap (attach lc pm s st)) = map fst (companyMap st)"
  by (auto simp: attach_def Let_def keys_store dest: map_of_keyD split: option.splits)








section \<open>White space and splitting\<close>

subsection \<open>trim\<close>


lemma trim_unchanged: "s \<noteq> [] \<Longrightarrow> \<not> is_space (hd s) \<Longrightarrow> \<not> is_space (last s) \<Longrightarrow> trim s = s"
proof -
  assume s: "s \<noteq> []" and h: "\<not> is_space (hd s)" and l: "\<not> is_space (last s)"
  from s h have 1: "dropWhile is_space s = s" by (cases s) auto
  from s l have 2: "dropWhile is_space (rev s) = rev s" by (cases "rev s") (auto simp: last_rev hd_rev)
  show ?thesis by (simp add: trim_def 1 2)
qed

lemma trim_ends: "trim s \<noteq> [] \<Longrightarrow> \<not> is_space (hd (trim s)) \<and> \<not> is_space (last (trim s))"
proof -
  assume n: "trim s \<noteq> []"
  let ?t = "dropWhile is_space s"
  let ?u = "dropWhile is_space (rev ?t)"
  have tr: "trim s = rev ?u" by (simp add: trim_def)
  have u: "?u \<noteq> []" using n by (simp add: trim_def)
  then have hu: "\<not> is_space (hd ?u)" by (rule hd_dropWhile)
  have t: "?t \<noteq> []" using u by (auto dest: set_dropWhileD)
  then have ht: "\<not> is_space (hd ?t)" by (rule hd_dropWhile)
  have "rev ?t = takeWhile is_space (rev ?t) @ ?u" by simp
  then have "?t = rev ?u @ rev (takeWhile is_space (rev ?t))"
    by (metis rev_append rev_rev_ident)
  then have "hd ?t = hd (rev ?u)" using u by (metis hd_append2 rev_is_Nil_conv)
  with ht have "\<not> is_space (hd (trim s))" by (simp add: tr)
  moreover have "last (trim s) = hd ?u" using u by (simp add: tr last_rev)
  ultimately show ?thesis using hu by simp
qed

lemma trim_idem: "trim (trim s) = trim s"
proof (cases "trim s = []")
  case True
  have "trim [] = []" by (simp add: trim_def)
  with True show ?thesis by simp
next
  case False
  then show ?thesis using trim_ends [OF False] by (intro trim_unchanged) auto
qed


lemma set_trim_subset: "set (trim s) \<subseteq> set s"
proof -
  have "set (trim s) \<subseteq> set (dropWhile is_space s)"
    unfolding trim_def using set_dropWhileD [of _ is_space "rev (dropWhile is_space s)"] by auto
  then show ?thesis using set_dropWhileD [of _ is_space s] by blast
qed

subsection \<open>split\<close>

lemma split_not_Nil: "split sep s \<noteq> []"
  by (induction s) (auto split: list.splits)

lemma split_no_sep: "p \<in> set (split sep s) \<Longrightarrow> sep \<notin> set p"
proof (induction s arbitrary: p)
  case Nil
  then show ?case by simp
next
  case (Cons c s)
  then show ?case using split_not_Nil [of sep s] by (auto split: list.splits if_splits)
qed

lemma join_split: "join sep (split sep s) = s"
proof (induction s)
  case Nil
  then show ?case by simp
next
  case (Cons c s)
  then show ?case using split_not_Nil [of sep s]
    by (cases "split sep s"; cases "tl (split sep s)") (auto split: list.splits)
qed

section \<open>The written companies\<close>

lemma attach_all_Cons: "attach_all lc pm (s # ls) st = attach_all lc pm ls (attach lc pm s st)"
  by (simp add: attach_all_def)

lemma attach_all_append:
  "attach_all lc pm (xs @ ys) st = attach_all lc pm ys (attach_all lc pm xs st)"
  by (simp add: attach_all_def)

lemma mk_company_name: "name (mk_company lc r) = name_of r"
  by (simp add: mk_company_def Let_def)



lemmas run_eval =
  csv_eval pick_row.simps norm_def ascii_lower_def reconcile_def attach_all_def attach_def
  problemMap_of_def add_problem_def companyMap_of_def add_company_def mk_company_def slug_def
  org_types_of_def derive_def Let_def is_lower_digit_def


text \<open>
  The scenario of the spec: a link row that differs from the problem in case finds it.
\<close>

lemma scenario_case_difference:
  "reconcile ascii_lower
          (parseCSV (js ''Company Name\<newline>Acme''))
          (parseCSV (js ''Problem,Solution,Feature\<newline>Slow onboarding,Add checklist,Checklist tool''))
          (parseCSV (js ''Company Name,Problem\<newline>ACME,slow onboarding\<newline>Acme,Slow Onboarding''))
   = \<lparr>companies = [\<lparr>id_field = js ''acme'', name = js ''Acme'', website = [], location = [], target = [],
        org_types = [], solutions = [\<lparr>problem = js ''Slow onboarding'', solution = js ''Add checklist'', feature = js ''Checklist tool''\<rparr>],
        problems = [js ''Slow onboarding'']\<rparr>], reported_missingCompany = 0, reported_missingProblem = 0\<rparr>"
  by (simp add: run_eval)

section \<open>Plain objects\<close>

lemma mset_obj_entries: "mset (obj_entries ob) = mset ob"
  by (simp add: obj_entries_def)

lemma set_obj_entries: "set (obj_entries ob) = set ob"
  using mset_obj_entries [of ob] by (metis set_mset_mset)

lemma distinct_map_obj_entries: "distinct (map f (obj_entries ob)) \<longleftrightarrow> distinct (map f ob)"
proof -
  have "mset (map f (obj_entries ob)) = mset (map f ob)"
    using mset_obj_entries [of ob] by (metis mset_map)
  then show ?thesis by (rule mset_eq_imp_distinct_iff)
qed

lemma fold_obj_put:
  "fold (\<lambda>r m. if skip r then m else obj_put m (key r) (val r)) rows m =
   fold (\<lambda>r m. if skip r \<or> key r = js ''__proto__'' then m else store m (key r) (val r)) rows m"
  by (rule arg_cong [where f = "\<lambda>f. fold f rows m"]) (auto simp: obj_put_def fun_eq_iff)

subsection \<open>The company index of src/unnamed/part_001\<close>

lemma add_company1_fold:
  "add_company1 lc = (\<lambda>r m. if id1_of lc r = [] \<or> name1_of lc r = [] then m
       else obj_put m (norm lc (id1_of lc r)) (mk_company1 lc r))"
  by (intro ext) (simp add: add_company1_def)

lemma companyMap1_of_distinct: "distinct (map fst (companyMap1_of lc rows))"
  unfolding companyMap1_of_def add_company1_fold fold_obj_put by (rule fold_store_distinct) simp

lemma companyMap1_of_lookup:
  "map_of (companyMap1_of lc rows) k =
     (case find (\<lambda>r. id1_of lc r \<noteq> [] \<and> name1_of lc r \<noteq> [] \<and> norm lc (id1_of lc r) \<noteq> js ''__proto__''
                     \<and> norm lc (id1_of lc r) = k) (rev rows) of
        Some r \<Rightarrow> Some (mk_company1 lc r)
      | None \<Rightarrow> None)"
  unfolding companyMap1_of_def add_company1_fold fold_obj_put
  by (simp add: fold_store_lookup split: option.splits)

lemma companyMap1_of_keys:
  "fst ` set (companyMap1_of lc rows) =
     {norm lc (id1_of lc r) | r. r \<in> set rows \<and> id1_of lc r \<noteq> [] \<and> name1_of lc r \<noteq> []
         \<and> norm lc (id1_of lc r) \<noteq> js ''__proto__''}"
  unfolding companyMap1_of_def add_company1_fold fold_obj_put
  by (simp add: fold_store_keys)

lemma companyMap_of_keys:
  "fst ` set (companyMap_of lc rows) = {norm lc (name_of r) | r. r \<in> set rows \<and> name_of r \<noteq> []}"
  unfolding companyMap_of_def add_company_fold
  by (simp add: fold_store_keys)

lemma store_same_shape:
  assumes "distinct (map fst cm)" "(k, co) \<in> set cm" "f co' = f co"
  shows "map (\<lambda>(k, c). (k, f c)) (store cm k co') = map (\<lambda>(k, c). (k, f c)) cm"
proof -
  have in_keys: "k \<in> fst ` set cm" using assms(2) by force
  have "(case (case e of (k', v') \<Rightarrow> if k' = k then (k', co') else (k', v')) of (k, c) \<Rightarrow> (k, f c))
        = (case e of (k, c) \<Rightarrow> (k, f c))" if "e \<in> set cm" for e
  proof (cases e)
    case (Pair k' v')
    show ?thesis
    proof (cases "k' = k")
      case True
      with that Pair have "v' = co" using assms(1,2) by (metis eq_key_imp_eq_value)
      with True Pair show ?thesis by (simp add: assms(3))
    next
      case False
      with Pair show ?thesis by simp
    qed
  qed
  then have "map (\<lambda>(k, c). (k, f c)) (map (\<lambda>(k', v'). if k' = k then (k', co') else (k', v')) cm)
        = map (\<lambda>(k, c). (k, f c)) cm"
    by (simp add: comp_def)
  with in_keys show ?thesis by (simp add: store_def)
qed

lemma find_in_set: "find P xs = Some x \<Longrightarrow> x \<in> set xs"
  by (induction xs) (auto split: if_splits)

lemma find_company1_own: "find_company1 lc cm r = Some (k, co) \<Longrightarrow> (k, co) \<in> set cm"
proof -
  assume a: "find_company1 lc cm r = Some (k, co)"
  show ?thesis
  proof (cases "if norm lc (id1_of lc r) \<noteq> [] then obj_get cm (norm lc (id1_of lc r)) else None")
    case None
    with a have "find (\<lambda>(k, c). norm lc (name1 c) = norm lc (pick1_row lc r [js ''Company Name'', js ''Company'']))
                   (obj_entries cm) = Some (k, co)"
      by (simp add: find_company1_def Let_def)
    then have "(k, co) \<in> set (obj_entries cm)" by (rule find_in_set)
    then show ?thesis by (simp add: set_obj_entries)
  next
    case (Some c1)
    with a have "k = norm lc (id1_of lc r)" "c1 = co" by (auto simp: find_company1_def Let_def)
    with Some show ?thesis by (auto simp: obj_get_def split: if_splits dest: map_of_SomeD)
  qed
qed

lemma link1_shape:
  assumes "distinct (map fst (companyMap1 st))"
  shows "shape1 (companyMap1 (link1 lc pm r st)) = shape1 (companyMap1 st)"
proof (cases "find_company1 lc (companyMap1 st) r")
  case None
  then show ?thesis by (simp add: link1_def)
next
  case (Some a)
  obtain k co where a: "a = (k, co)" by (cases a)
  from Some a have own: "(k, co) \<in> set (companyMap1 st)" by (auto dest: find_company1_own)
  have "shape1 (store (companyMap1 st) k (co\<lparr>solutions1 := solutions1 co @ [p]\<rparr>)) = shape1 (companyMap1 st)" for p
    using assms own by (rule store_same_shape) simp
  then show ?thesis using Some a by (simp add: link1_def Let_def split: option.splits)
qed

lemma shape1_keys: "map fst (shape1 cm) = map fst cm"
  by (induction cm) auto

lemma fold_link1_shape:
  assumes "distinct (map fst (companyMap1 st))"
  shows "shape1 (companyMap1 (fold (link1 lc pm) rs st)) = shape1 (companyMap1 st)"
  using assms
proof (induction rs arbitrary: st)
  case Nil
  then show ?case by simp
next
  case (Cons r rs)
  have "distinct (map fst (companyMap1 (link1 lc pm r st)))"
    using Cons.prems link1_shape [OF Cons.prems, of lc pm r] by (metis shape1_keys)
  from Cons.IH [OF this] show ?case using link1_shape [OF Cons.prems, of lc pm r] by simp
qed








lemma shape_keys: "map fst (shape cm) = map fst cm"
  by (induction cm) auto

lemma attach_shape:
  assumes "distinct (map fst (companyMap st))"
  shows "shape (companyMap (attach lc pm s st)) = shape (companyMap st)"
proof (cases "map_of (companyMap st) (cname_of lc s)")
  case None
  then show ?thesis by (simp add: attach_def Let_def)
next
  case (Some co)
  then have own: "(cname_of lc s, co) \<in> set (companyMap st)" by (rule map_of_SomeD)
  have "shape (store (companyMap st) (cname_of lc s) (co\<lparr>solutions := solutions co @ [p]\<rparr>))
        = shape (companyMap st)" for p
    using assms own by (rule store_same_shape) simp
  then show ?thesis using Some by (simp add: attach_def Let_def split: option.splits)
qed

lemma attach_all_shape:
  assumes "distinct (map fst (companyMap st))"
  shows "shape (companyMap (attach_all lc pm ls st)) = shape (companyMap st)"
  using assms
proof (induction ls arbitrary: st)
  case Nil
  then show ?case by (simp add: attach_all_def)
next
  case (Cons s ls)
  have "distinct (map fst (companyMap (attach lc pm s st)))"
    using Cons.prems by (simp add: attach_keys)
  from Cons.IH [OF this] show ?case
    using attach_shape [OF Cons.prems, of lc pm s] by (simp add: attach_all_Cons)
qed

text \<open>The entries of the two indexes, before any link row is read.\<close>

lemma companyMap_of_entry:
  assumes "(k, c) \<in> set (companyMap_of lc cs)"
  shows "\<exists>r. find (\<lambda>r. name_of r \<noteq> [] \<and> norm lc (name_of r) = k) (rev cs) = Some r
           \<and> c = mk_company lc r \<and> k = norm lc (name c)"
proof -
  from assms have "map_of (companyMap_of lc cs) k = Some c"
    using companyMap_of_distinct [of lc cs] by simp
  then obtain r where r: "find (\<lambda>r. name_of r \<noteq> [] \<and> norm lc (name_of r) = k) (rev cs) = Some r"
    and c: "c = mk_company lc r"
    by (auto simp: companyMap_of_lookup split: option.splits)
  from r have "k = norm lc (name_of r)" by (auto simp: find_Some_iff)
  with r c show ?thesis by (simp add: mk_company_name)
qed

lemma companyMap1_of_entry:
  assumes "(k, c) \<in> set (companyMap1_of lc cs)"
  shows "\<exists>r. find (\<lambda>r. id1_of lc r \<noteq> [] \<and> name1_of lc r \<noteq> []
                     \<and> norm lc (id1_of lc r) \<noteq> js ''__proto__'' \<and> norm lc (id1_of lc r) = k) (rev cs) = Some r
           \<and> c = mk_company1 lc r \<and> k = norm lc (id1 c)"
proof -
  from assms have "map_of (companyMap1_of lc cs) k = Some c"
    using companyMap1_of_distinct [of lc cs] by simp
  then obtain r where r: "find (\<lambda>r. id1_of lc r \<noteq> [] \<and> name1_of lc r \<noteq> []
                     \<and> norm lc (id1_of lc r) \<noteq> js ''__proto__'' \<and> norm lc (id1_of lc r) = k) (rev cs) = Some r"
    and c: "c = mk_company1 lc r"
    by (auto simp: companyMap1_of_lookup split: option.splits)
  from r have "k = norm lc (id1_of lc r)" by (auto simp: find_Some_iff)
  with r c show ?thesis by (simp add: mk_company1_def)
qed

text \<open>The written companies are the entries of the index, with solutions added.\<close>

lemma reconcile_shape:
  "map (\<lambda>c. c\<lparr>solutions := [], problems := []\<rparr>) (companies (reconcile lc cs ps ls))
   = map snd (companyMap_of lc cs)"
proof -
  let ?init = "\<lparr>companyMap = companyMap_of lc cs, missingCompany = 0, missingProblem = 0\<rparr>"
  let ?fin = "companyMap (attach_all lc (problemMap_of lc ps) ls ?init)"
  have sh: "shape ?fin = shape (companyMap_of lc cs)"
    using attach_all_shape [of ?init lc "problemMap_of lc ps" ls] by (simp add: companyMap_of_distinct)
  have "map (\<lambda>c. c\<lparr>solutions := [], problems := []\<rparr>) (companies (reconcile lc cs ps ls))
        = map (\<lambda>c. c\<lparr>problems := []\<rparr>) (map snd (shape ?fin))"
    by (simp add: reconcile_def Let_def derive_def comp_def case_prod_beta)
  also have "\<dots> = map (\<lambda>c. c\<lparr>problems := []\<rparr>) (map snd (shape (companyMap_of lc cs)))"
    by (simp only: sh)
  also have "\<dots> = map snd (companyMap_of lc cs)"
  proof -
    have "(snd e)\<lparr>solutions := [], problems := []\<rparr> = snd e" if "e \<in> set (companyMap_of lc cs)" for e
    proof -
      obtain k c where e: "e = (k, c)" by (cases e)
      with that companyMap_of_entry [of k c lc cs] obtain r where "c = mk_company lc r" by blast
      then show ?thesis by (simp add: e mk_company_def Let_def)
    qed
    then show ?thesis by (simp add: comp_def case_prod_beta map_idI)
  qed
  finally show ?thesis .
qed

lemma reconcile1_final:
  "\<exists>fin. companies1 (reconcile1 lc cs ps ls) = map snd (obj_entries fin)
         \<and> shape1 fin = shape1 (companyMap1_of lc cs)"
proof -
  obtain pm n where pm: "fold (add_problem1 lc) ps ([], 0) = (pm, n)"
    by (cases "fold (add_problem1 lc) ps ([], 0)")
  let ?init = "\<lparr>companyMap1 = companyMap1_of lc cs, matchedLinks = 0,
                 unmatchedCompanies = 0, unmatchedProblems = []\<rparr>"
  let ?fin = "companyMap1 (fold (link1 lc pm) ls ?init)"
  have sh: "shape1 ?fin = shape1 (companyMap1_of lc cs)"
    using fold_link1_shape [of ?init lc pm ls] by (simp add: companyMap1_of_distinct)
  have "companies1 (reconcile1 lc cs ps ls) = map snd (obj_entries ?fin)"
    by (simp add: reconcile1_def pm Let_def)
  with sh show ?thesis by blast
qed

lemma shape1_entry:
  assumes "shape1 fin = shape1 cm" "(k, c) \<in> set fin"
  shows "\<exists>ci. (k, ci) \<in> set cm \<and> ci\<lparr>solutions1 := []\<rparr> = c\<lparr>solutions1 := []\<rparr>"
proof -
  from assms(2) have "(k, c\<lparr>solutions1 := []\<rparr>) \<in> set (shape1 fin)" by force
  then have "(k, c\<lparr>solutions1 := []\<rparr>) \<in> set (shape1 cm)" by (simp only: assms(1))
  then show ?thesis by auto
qed

lemma reconcile1_company:
  assumes "c \<in> set (companies1 (reconcile1 lc cs ps ls))"
  shows "\<exists>r. find (\<lambda>r. id1_of lc r \<noteq> [] \<and> name1_of lc r \<noteq> []
                     \<and> norm lc (id1_of lc r) \<noteq> js ''__proto__''
                     \<and> norm lc (id1_of lc r) = norm lc (id1 c)) (rev cs) = Some r
           \<and> c\<lparr>solutions1 := []\<rparr> = mk_company1 lc r"
proof -
  from reconcile1_final [of lc cs ps ls] obtain fin
    where out: "companies1 (reconcile1 lc cs ps ls) = map snd (obj_entries fin)"
      and sh: "shape1 fin = shape1 (companyMap1_of lc cs)" by blast
  from assms out obtain k where "(k, c) \<in> set fin" by (auto simp: set_obj_entries)
  from shape1_entry [OF sh this] obtain ci where ci: "(k, ci) \<in> set (companyMap1_of lc cs)"
    and eq: "ci\<lparr>solutions1 := []\<rparr> = c\<lparr>solutions1 := []\<rparr>" by blast
  from companyMap1_of_entry [OF ci] obtain r
    where r: "find (\<lambda>r. id1_of lc r \<noteq> [] \<and> name1_of lc r \<noteq> []
                     \<and> norm lc (id1_of lc r) \<noteq> js ''__proto__'' \<and> norm lc (id1_of lc r) = k) (rev cs) = Some r"
      and cir: "ci = mk_company1 lc r" and k: "k = norm lc (id1 ci)" by blast
  have "id1 ci = id1 (ci\<lparr>solutions1 := []\<rparr>)" by simp
  also have "\<dots> = id1 c" by (simp only: eq) simp
  finally have idc: "id1 ci = id1 c" .
  have "ci\<lparr>solutions1 := []\<rparr> = ci" by (simp add: cir mk_company1_def)
  with eq have "c\<lparr>solutions1 := []\<rparr> = mk_company1 lc r" by (simp add: cir)
  with r show ?thesis unfolding k idc by blast
qed

lemma reconcile1_distinct:
  "distinct (map (\<lambda>c. norm lc (id1 c)) (companies1 (reconcile1 lc cs ps ls)))"
proof -
  from reconcile1_final [of lc cs ps ls] obtain fin
    where out: "companies1 (reconcile1 lc cs ps ls) = map snd (obj_entries fin)"
      and sh: "shape1 fin = shape1 (companyMap1_of lc cs)" by blast
  let ?f = "\<lambda>e. norm lc (id1 (snd e))"
  have 1: "map ?f cm = map ?f (shape1 cm)" for cm :: "company1 obj"
    by (simp add: comp_def case_prod_beta)
  have m: "map ?f (companyMap1_of lc cs) = map fst (companyMap1_of lc cs)"
  proof (rule map_cong [OF refl])
    fix e assume e: "e \<in> set (companyMap1_of lc cs)"
    obtain k c where kc: "e = (k, c)" by (cases e)
    from companyMap1_of_entry [of k c lc cs] e kc show "?f e = fst e" by auto
  qed
  have "distinct (map ?f (companyMap1_of lc cs))" by (simp only: m companyMap1_of_distinct)
  then have "distinct (map ?f fin)" using 1 [of fin] 1 [of "companyMap1_of lc cs"] sh by simp
  then have "distinct (map ?f (obj_entries fin))" by (simp only: distinct_map_obj_entries)
  then show ?thesis by (simp add: out comp_def)
qed

lemma reconcile_distinct:
  "distinct (map (\<lambda>c. norm lc (name c)) (companies (reconcile lc cs ps ls)))"
proof -
  have "map (\<lambda>c. norm lc (name c)) (companies (reconcile lc cs ps ls))
        = map (\<lambda>c. norm lc (name c)) (map (\<lambda>c. c\<lparr>solutions := [], problems := []\<rparr>) (companies (reconcile lc cs ps ls)))"
    by (simp add: comp_def)
  also have "\<dots> = map (\<lambda>e. norm lc (name (snd e))) (companyMap_of lc cs)"
    by (simp only: reconcile_shape) (simp add: comp_def)
  also have "\<dots> = map fst (companyMap_of lc cs)"
  proof (rule map_cong [OF refl])
    fix e assume e: "e \<in> set (companyMap_of lc cs)"
    obtain k c where kc: "e = (k, c)" by (cases e)
    from companyMap_of_entry [of k c lc cs] e kc show "norm lc (name (snd e)) = fst e" by auto
  qed
  finally show ?thesis by (simp add: companyMap_of_distinct)
qed

lemma reconcile_company_row:
  assumes "c \<in> set (companies (reconcile lc cs ps ls))"
  shows "\<exists>r. find (\<lambda>r. name_of r \<noteq> [] \<and> norm lc (name_of r) = norm lc (name c)) (rev cs) = Some r
           \<and> c\<lparr>solutions := [], problems := []\<rparr> = mk_company lc r"
proof -
  from assms have "c\<lparr>solutions := [], problems := []\<rparr>
      \<in> set (map (\<lambda>c. c\<lparr>solutions := [], problems := []\<rparr>) (companies (reconcile lc cs ps ls)))"
    by simp
  then have "c\<lparr>solutions := [], problems := []\<rparr> \<in> snd ` set (companyMap_of lc cs)"
    by (simp only: reconcile_shape set_map)
  then obtain k where "(k, c\<lparr>solutions := [], problems := []\<rparr>) \<in> set (companyMap_of lc cs)" by force
  from companyMap_of_entry [OF this] show ?thesis by auto
qed

lemmas run1_eval =
  csv_eval pick1_row.simps lookup1_def keyMap_def obj_entries_def array_index_def decimal_def
  norm_def ascii_lower_def reconcile1_def link1_def find_company1_def add_problem1_def
  companyMap1_of_def add_company1_def mk_company1_def keyify_def keyify_chars_def
  org_types_of_def Let_def is_lower_digit_def

lemmas plain_eval =
  plain_run_def plain_row_def plain_aliases_def own_or_missing_def inherited_def proto_names_def

lemmas keyify_eval =
  csv_eval norm_def ascii_lower_def keyify_def keyify_chars_def is_lower_digit_def

section \<open>The company index\<close>

text \<open>
  Against claim C4 as stated: of two company rows with the same identity key, the
  record built from the first is not the one kept. Both scripts assign to the key without
  looking for an entry (\<open>companyMap.set(key, ...)\<close>, line 125 of scripts/build-data.mjs;
  \<open>companyMap[idKey] = ...\<close>, line 114 of src/unnamed/part_001), so the record of the
  second row replaces that of the first: the one company that is written has the website
  of the second row.
\<close>

theorem company_index_first_row_not_kept:
  "map website (companies (reconcile ascii_lower
      (parseCSV (js ''Company Name,Website\<newline>Acme,first.example\<newline>ACME,second.example''))
      [] [])) = [js ''second.example'']
   \<and> map website1 (companies1 (reconcile1 ascii_lower
      (parseCSV1 (js ''Company ID,Company Name,Website\<newline>c1,Acme,first.example\<newline>C1,Acme,second.example''))
      [] [])) = [js ''second.example'']"
  by (simp add: run_eval run1_eval)

lemma find_plain:
  assumes "\<forall>r \<in> set cs. id1_of lc r \<noteq> [] \<and> name1_of lc r \<noteq> [] \<longrightarrow>
             norm lc (id1_of lc r) \<noteq> js ''__proto__''"
  shows "find (\<lambda>r. id1_of lc r \<noteq> [] \<and> name1_of lc r \<noteq> []
                     \<and> norm lc (id1_of lc r) \<noteq> js ''__proto__'' \<and> norm lc (id1_of lc r) = k) (rev cs)
       = find (\<lambda>r. id1_of lc r \<noteq> [] \<and> name1_of lc r \<noteq> [] \<and> norm lc (id1_of lc r) = k) (rev cs)"
  by (rule find_cong) (use assms in auto)

lemma reconcile1_keys:
  "(\<lambda>c. norm lc (id1 c)) ` set (companies1 (reconcile1 lc cs ps ls)) = fst ` set (companyMap1_of lc cs)"
proof -
  from reconcile1_final [of lc cs ps ls] obtain fin
    where out: "companies1 (reconcile1 lc cs ps ls) = map snd (obj_entries fin)"
      and sh: "shape1 fin = shape1 (companyMap1_of lc cs)" by blast
  have "(\<lambda>c. norm lc (id1 c)) ` set (companies1 (reconcile1 lc cs ps ls))
        = (\<lambda>e. norm lc (id1 (snd e))) ` set fin"
    by (simp add: out set_obj_entries image_image)
  also have "\<dots> = (\<lambda>e. norm lc (id1 (snd e))) ` set (shape1 fin)"
    by (force simp: image_iff)
  also have "\<dots> = (\<lambda>e. norm lc (id1 (snd e))) ` set (shape1 (companyMap1_of lc cs))"
    by (simp only: sh)
  also have "\<dots> = (\<lambda>e. norm lc (id1 (snd e))) ` set (companyMap1_of lc cs)"
    by (force simp: image_iff)
  also have "\<dots> = fst ` set (companyMap1_of lc cs)"
  proof (rule image_cong [OF refl])
    fix e assume e: "e \<in> set (companyMap1_of lc cs)"
    obtain k c where kc: "e = (k, c)" by (cases e)
    from companyMap1_of_entry [of k c lc cs] e kc show "norm lc (id1 (snd e)) = fst e" by auto
  qed
  finally show ?thesis .
qed

text \<open>
  Claim C4, as amended. The identity keys of the written companies (the normalised name
  in scripts/build-data.mjs, the normalised id in src/unnamed/part_001) are pairwise
  different; every company row with the fields that the script requires has a written
  company under its key; and every written company is, but for its solutions and the list
  derived from them, the record built from the last company row with its key. For
  part_001 this is stated of the runs that read own properties only (\<open>plain_run\<close>): no
  column named \<open>__keyMap\<close>, no company with the id key \<open>__proto__\<close>, no link row whose id
  key or problem key is the name of a property of \<open>Object.prototype\<close> and not a key of
  the index.
\<close>

theorem company_index_last_row_kept:
  "distinct (map (\<lambda>c. norm lc (name c)) (companies (reconcile lc cs ps ls)))
   \<and> (\<forall>r \<in> set cs. name_of r \<noteq> [] \<longrightarrow>
         norm lc (name_of r) \<in> (\<lambda>c. norm lc (name c)) ` set (companies (reconcile lc cs ps ls)))
   \<and> (\<forall>c \<in> set (companies (reconcile lc cs ps ls)).
         \<exists>r. find (\<lambda>r. name_of r \<noteq> [] \<and> norm lc (name_of r) = norm lc (name c)) (rev cs) = Some r
            \<and> c\<lparr>solutions := [], problems := []\<rparr> = mk_company lc r)
   \<and> (plain_run lc cs ps ls \<longrightarrow>
         distinct (map (\<lambda>c. norm lc (id1 c)) (companies1 (reconcile1 lc cs ps ls)))
       \<and> (\<forall>r \<in> set cs. id1_of lc r \<noteq> [] \<and> name1_of lc r \<noteq> [] \<longrightarrow>
             norm lc (id1_of lc r) \<in> (\<lambda>c. norm lc (id1 c)) ` set (companies1 (reconcile1 lc cs ps ls)))
       \<and> (\<forall>c \<in> set (companies1 (reconcile1 lc cs ps ls)).
             \<exists>r. find (\<lambda>r. id1_of lc r \<noteq> [] \<and> name1_of lc r \<noteq> []
                         \<and> norm lc (id1_of lc r) = norm lc (id1 c)) (rev cs) = Some r
                \<and> c\<lparr>solutions1 := []\<rparr> = mk_company1 lc r))"
proof (intro conjI ballI impI)
  show "distinct (map (\<lambda>c. norm lc (name c)) (companies (reconcile lc cs ps ls)))"
    by (rule reconcile_distinct)
next
  fix r assume r: "r \<in> set cs" "name_of r \<noteq> []"
  have "(\<lambda>c. norm lc (name c)) ` set (companies (reconcile lc cs ps ls))
        = (\<lambda>c. norm lc (name c)) ` set (map (\<lambda>c. c\<lparr>solutions := [], problems := []\<rparr>) (companies (reconcile lc cs ps ls)))"
    by (simp add: image_image)
  also have "\<dots> = (\<lambda>e. norm lc (name (snd e))) ` set (companyMap_of lc cs)"
    by (simp only: reconcile_shape) (simp add: image_image)
  also have "\<dots> = fst ` set (companyMap_of lc cs)"
  proof (rule image_cong [OF refl])
    fix e assume e: "e \<in> set (companyMap_of lc cs)"
    obtain k c where kc: "e = (k, c)" by (cases e)
    from companyMap_of_entry [of k c lc cs] e kc show "norm lc (name (snd e)) = fst e" by auto
  qed
  finally show "norm lc (name_of r) \<in> (\<lambda>c. norm lc (name c)) ` set (companies (reconcile lc cs ps ls))"
    using r by (auto simp: companyMap_of_keys)
next
  fix c assume "c \<in> set (companies (reconcile lc cs ps ls))"
  then show "\<exists>r. find (\<lambda>r. name_of r \<noteq> [] \<and> norm lc (name_of r) = norm lc (name c)) (rev cs) = Some r
            \<and> c\<lparr>solutions := [], problems := []\<rparr> = mk_company lc r"
    by (rule reconcile_company_row)
next
  show "distinct (map (\<lambda>c. norm lc (id1 c)) (companies1 (reconcile1 lc cs ps ls)))"
    by (rule reconcile1_distinct)
next
  fix r assume plain: "plain_run lc cs ps ls"
    and r: "r \<in> set cs" "id1_of lc r \<noteq> [] \<and> name1_of lc r \<noteq> []"
  from plain r have "norm lc (id1_of lc r) \<noteq> js ''__proto__''" by (simp add: plain_run_def)
  with r have "norm lc (id1_of lc r) \<in> fst ` set (companyMap1_of lc cs)"
    by (auto simp: companyMap1_of_keys)
  then show "norm lc (id1_of lc r) \<in> (\<lambda>c. norm lc (id1 c)) ` set (companies1 (reconcile1 lc cs ps ls))"
    by (simp only: reconcile1_keys)
next
  fix c assume plain: "plain_run lc cs ps ls" and c: "c \<in> set (companies1 (reconcile1 lc cs ps ls))"
  from plain have "\<forall>r \<in> set cs. id1_of lc r \<noteq> [] \<and> name1_of lc r \<noteq> [] \<longrightarrow>
      norm lc (id1_of lc r) \<noteq> js ''__proto__''" by (simp add: plain_run_def)
  from reconcile1_company [OF c] find_plain [OF this]
  show "\<exists>r. find (\<lambda>r. id1_of lc r \<noteq> [] \<and> name1_of lc r \<noteq> []
                     \<and> norm lc (id1_of lc r) = norm lc (id1 c)) (rev cs) = Some r
            \<and> c\<lparr>solutions1 := []\<rparr> = mk_company1 lc r"
    by simp
qed

theorem company_index_last_row_kept_witness:
  "(\<exists>r. find (\<lambda>r. name_of r \<noteq> [] \<and> norm ascii_lower (name_of r) = js ''acme'')
          (rev (parseCSV (js ''Company Name,Website\<newline>Acme,first.example\<newline>ACME,second.example'')))
        = Some r
      \<and> name_of r = js ''ACME''
      \<and> map name (companies (reconcile ascii_lower
           (parseCSV (js ''Company Name,Website\<newline>Acme,first.example\<newline>ACME,second.example'')) [] []))
         = [name (mk_company ascii_lower r)])
   \<and> (\<exists>r. find (\<lambda>r. id1_of ascii_lower r \<noteq> [] \<and> name1_of ascii_lower r \<noteq> []
                   \<and> norm ascii_lower (id1_of ascii_lower r) = js ''c1'')
          (rev (parseCSV1 (js ''Company ID,Company Name,Website\<newline>c1,Acme,first.example\<newline>C1,Acme,second.example'')))
        = Some r
      \<and> id1_of ascii_lower r = js ''C1''
      \<and> map id1 (companies1 (reconcile1 ascii_lower
           (parseCSV1 (js ''Company ID,Company Name,Website\<newline>c1,Acme,first.example\<newline>C1,Acme,second.example'')) [] []))
         = [id1 (mk_company1 ascii_lower r)])"
proof (rule conjI)
  let ?cs = "parseCSV (js ''Company Name,Website\<newline>Acme,first.example\<newline>ACME,second.example'')"
  let ?out = "companies (reconcile ascii_lower ?cs [] [])"
  have out: "map name ?out = [js ''ACME'']" by (simp add: run_eval)
  then have mem: "hd ?out \<in> set ?out" and nm: "name (hd ?out) = js ''ACME''"
    by (cases ?out; simp)+
  have key: "norm ascii_lower (js ''ACME'') = js ''acme''" by (simp add: run_eval)
  from company_index_last_row_kept [of ascii_lower ?cs "[]" "[]"] mem
  obtain r where r: "find (\<lambda>r. name_of r \<noteq> [] \<and> norm ascii_lower (name_of r) = norm ascii_lower (name (hd ?out))) (rev ?cs) = Some r"
    and c: "(hd ?out)\<lparr>solutions := [], problems := []\<rparr> = mk_company ascii_lower r"
    by blast
  have "name (mk_company ascii_lower r) = name ((hd ?out)\<lparr>solutions := [], problems := []\<rparr>)"
    by (simp only: c)
  then have n: "name (mk_company ascii_lower r) = js ''ACME''" by (simp add: nm)
  then have "name_of r = js ''ACME''" by (simp add: mk_company_name)
  with r n out show "\<exists>r. find (\<lambda>r. name_of r \<noteq> [] \<and> norm ascii_lower (name_of r) = js ''acme'') (rev ?cs) = Some r
      \<and> name_of r = js ''ACME''
      \<and> map name (companies (reconcile ascii_lower ?cs [] [])) = [name (mk_company ascii_lower r)]"
    unfolding nm key by auto
next
  let ?cs = "parseCSV1 (js ''Company ID,Company Name,Website\<newline>c1,Acme,first.example\<newline>C1,Acme,second.example'')"
  let ?out = "companies1 (reconcile1 ascii_lower ?cs [] [])"
  have plain: "plain_run ascii_lower ?cs [] []" by (simp add: plain_eval run1_eval)
  have out: "map id1 ?out = [js ''C1'']" by (simp add: run1_eval)
  then have mem: "hd ?out \<in> set ?out" and nm: "id1 (hd ?out) = js ''C1''"
    by (cases ?out; simp)+
  have key: "norm ascii_lower (js ''C1'') = js ''c1''" by (simp add: run_eval)
  from company_index_last_row_kept [of ascii_lower ?cs "[]" "[]"] plain mem
  obtain r where r: "find (\<lambda>r. id1_of ascii_lower r \<noteq> [] \<and> name1_of ascii_lower r \<noteq> []
        \<and> norm ascii_lower (id1_of ascii_lower r) = norm ascii_lower (id1 (hd ?out))) (rev ?cs) = Some r"
    and c: "(hd ?out)\<lparr>solutions1 := []\<rparr> = mk_company1 ascii_lower r"
    by blast
  have "id1 (mk_company1 ascii_lower r) = id1 ((hd ?out)\<lparr>solutions1 := []\<rparr>)"
    by (simp only: c)
  then have n: "id1 (mk_company1 ascii_lower r) = js ''C1''" by (simp add: nm)
  then have "id1_of ascii_lower r = js ''C1''" by (simp add: mk_company1_def)
  with r n out show "\<exists>r. find (\<lambda>r. id1_of ascii_lower r \<noteq> [] \<and> name1_of ascii_lower r \<noteq> []
                   \<and> norm ascii_lower (id1_of ascii_lower r) = js ''c1'') (rev ?cs) = Some r
      \<and> id1_of ascii_lower r = js ''C1''
      \<and> map id1 ?out = [id1 (mk_company1 ascii_lower r)]"
    unfolding nm key by auto
qed

section \<open>The derived list\<close>

lemma build_data_Inr:
  "build_data lc ct pt lt = Inr out \<Longrightarrow> out = reconcile lc (parseCSV ct) (parseCSV pt) (parseCSV lt)"
  by (auto simp: build_data_def loadCSV_def Let_def split: sum.splits if_splits)

text \<open>
  Claim C2. For every company of the document that scripts/build-data.mjs writes,
  \<open>problems\<close> is the list of the \<open>problem\<close> texts of \<open>solutions\<close>, in order: the two lists
  have the same length and agree at every index.
\<close>

theorem problems_derived:
  assumes "build_data lc ct pt lt = Inr out" "c \<in> set (companies out)"
  shows "problems c = map problem (solutions c)
       \<and> length (problems c) = length (solutions c)
       \<and> (\<forall>i < length (solutions c). problems c ! i = problem (solutions c ! i))"
proof -
  from assms obtain c' where "c = derive c'"
    by (auto simp: reconcile_def Let_def dest!: build_data_Inr)
  then show ?thesis by (simp add: derive_def)
qed

lemmas build_eval = build_data_def loadCSV_def assertHas_def

theorem problems_derived_witness:
  "\<exists>out c. build_data ascii_lower
       (js ''Company Name\<newline>Acme'')
       (js ''Problem,Solution,Feature\<newline>Slow onboarding,Add checklist,Checklist tool'')
       (js ''Company Name,Problem\<newline>ACME,slow onboarding'') = Inr out
     \<and> companies out = [c] \<and> problems c = [js ''Slow onboarding'']
     \<and> problems c = map problem (solutions c)"
proof -
  let ?run = "build_data ascii_lower
       (js ''Company Name\<newline>Acme'')
       (js ''Problem,Solution,Feature\<newline>Slow onboarding,Add checklist,Checklist tool'')
       (js ''Company Name,Problem\<newline>ACME,slow onboarding'')"
  obtain out where out: "?run = Inr out" and cs: "map problems (companies out) = [[js ''Slow onboarding'']]"
    by (simp add: build_eval run_eval)
  from cs obtain c where c: "companies out = [c]" "problems c = [js ''Slow onboarding'']"
    by (cases "companies out") auto
  then have "c \<in> set (companies out)" by simp
  from problems_derived [OF out this] have "problems c = map problem (solutions c)" by blast
  with out c show ?thesis by blast
qed


section \<open>Deduplication\<close>




section \<open>Blank link rows\<close>

text \<open>
  Claim C9. In scripts/build-data.mjs a link row whose normalised company reference is
  empty, or whose problem text (which \<open>pick\<close> has trimmed) is empty, leaves the index and
  both counters as they are: the step returns at line 148, before the company is looked
  up. The written document is the one written without the row.
\<close>

theorem blank_link_row_skipped:
  assumes "cname_of lc s = [] \<or> probRaw_of s = []"
  shows "attach lc pm s st = st
       \<and> reconcile lc cs ps (xs @ s # ys) = reconcile lc cs ps (xs @ ys)"
proof -
  have 1: "attach lc pm s st = st" for pm st using assms by (rule attach_skip)
  have "attach_all lc pm (xs @ s # ys) st = attach_all lc pm (xs @ ys) st" for pm st
    by (simp add: attach_all_append attach_all_Cons 1)
  then show ?thesis by (simp add: reconcile_def 1)
qed

theorem blank_link_row_skipped_witness:
  "probRaw_of (hd (parseCSV (js ''Company Name,Problem\<newline>Ghost,''))) = []
   \<and> attach ascii_lower [] (hd (parseCSV (js ''Company Name,Problem\<newline>Ghost,'')))
        \<lparr>companyMap = [], missingCompany = 0, missingProblem = 0\<rparr>
     = \<lparr>companyMap = [], missingCompany = 0, missingProblem = 0\<rparr>"
proof -
  have h: "probRaw_of (hd (parseCSV (js ''Company Name,Problem\<newline>Ghost,''))) = []"
    by (simp add: run_eval)
  then have "cname_of ascii_lower (hd (parseCSV (js ''Company Name,Problem\<newline>Ghost,''))) = []
             \<or> probRaw_of (hd (parseCSV (js ''Company Name,Problem\<newline>Ghost,''))) = []" by simp
  from blank_link_row_skipped [OF this] h show ?thesis by blast
qed

section \<open>Unmatched companies\<close>











section \<open>Org types\<close>







section \<open>The field resolver\<close>

lemma pick_row_skip:
  "\<forall>k \<in> set before. \<forall>y. obj_get ob k = Some y \<longrightarrow> trim y = []
   \<Longrightarrow> pick_row ob (before @ rest) = pick_row ob rest"
  by (induction before) (auto simp: pick_row.simps split: option.splits)

lemma pick_row_hit:
  "obj_get ob k = Some x \<Longrightarrow> trim x \<noteq> [] \<Longrightarrow> pick_row ob (k # after) = trim x"
  by (simp add: pick_row.simps)

lemma pick_row_iff:
  "pick_row ob keys = v \<longleftrightarrow>
     (\<exists>before k after x. keys = before @ k # after \<and> obj_get ob k = Some x \<and> trim x \<noteq> []
          \<and> v = trim x \<and> (\<forall>k' \<in> set before. \<forall>y. obj_get ob k' = Some y \<longrightarrow> trim y = []))
   \<or> (v = [] \<and> (\<forall>k \<in> set keys. \<forall>y. obj_get ob k = Some y \<longrightarrow> trim y = []))"
  (is "?L \<longleftrightarrow> ?H \<or> ?N")
proof
  assume L: ?L
  let ?miss = "\<lambda>k. \<forall>y. obj_get ob k = Some y \<longrightarrow> trim y = []"
  show "?H \<or> ?N"
  proof (cases "\<forall>k \<in> set keys. ?miss k")
    case True
    then have "pick_row ob (keys @ []) = pick_row ob []" by (rule pick_row_skip)
    with L True show ?thesis by (simp add: pick_row.simps)
  next
    case False
    then have "\<exists>k \<in> set keys. \<not> ?miss k" by blast
    then obtain before k after where keys: "keys = before @ k # after"
      and hit: "\<not> ?miss k" and miss: "\<forall>k' \<in> set before. \<not> \<not> ?miss k'"
      by (auto dest!: split_list_first_prop)
    from hit obtain x where x: "obj_get ob k = Some x" "trim x \<noteq> []" by blast
    from miss have "pick_row ob (before @ k # after) = pick_row ob (k # after)"
      by (intro pick_row_skip) blast
    with x L keys have "v = trim x" by (simp add: pick_row_hit)
    with keys x miss show ?thesis by blast
  qed
next
  assume "?H \<or> ?N"
  then show ?L
  proof
    assume ?H
    then obtain before k after x where keys: "keys = before @ k # after"
      and x: "obj_get ob k = Some x" "trim x \<noteq> []" and v: "v = trim x"
      and miss: "\<forall>k' \<in> set before. \<forall>y. obj_get ob k' = Some y \<longrightarrow> trim y = []"
      by blast
    from miss have "pick_row ob (before @ k # after) = pick_row ob (k # after)"
      by (rule pick_row_skip)
    with x keys v show ?L by (simp add: pick_row_hit)
  next
    assume N: ?N
    then have "pick_row ob (keys @ []) = pick_row ob []" by (intro pick_row_skip) blast
    with N show ?L by (simp add: pick_row.simps)
  qed
qed

lemma pick1_row_skip:
  "\<forall>k \<in> set before. lookup1 lc ob k = None \<Longrightarrow> pick1_row lc ob (before @ rest) = pick1_row lc ob rest"
  by (induction before) (auto simp: pick1_row.simps)

lemma pick1_row_iff:
  "pick1_row lc ob keys = v \<longleftrightarrow>
     (\<exists>before k after. keys = before @ k # after \<and> lookup1 lc ob k = Some v
          \<and> (\<forall>k' \<in> set before. lookup1 lc ob k' = None))
   \<or> (v = [] \<and> (\<forall>k \<in> set keys. lookup1 lc ob k = None))"
  (is "?L \<longleftrightarrow> ?H \<or> ?N")
proof
  assume L: ?L
  show "?H \<or> ?N"
  proof (cases "\<forall>k \<in> set keys. lookup1 lc ob k = None")
    case True
    then have "pick1_row lc ob (keys @ []) = pick1_row lc ob []" by (rule pick1_row_skip)
    with L True show ?thesis by (simp add: pick1_row.simps)
  next
    case False
    then have "\<exists>k \<in> set keys. lookup1 lc ob k \<noteq> None" by blast
    then obtain before k after where keys: "keys = before @ k # after"
      and hit: "lookup1 lc ob k \<noteq> None" and miss: "\<forall>k' \<in> set before. \<not> lookup1 lc ob k' \<noteq> None"
      by (auto dest!: split_list_first_prop)
    from hit obtain x where x: "lookup1 lc ob k = Some x" by blast
    from miss have "pick1_row lc ob (before @ k # after) = pick1_row lc ob (k # after)"
      by (intro pick1_row_skip) blast
    with x L keys have "v = x" by (simp add: pick1_row.simps)
    with keys x miss show ?thesis by blast
  qed
next
  assume "?H \<or> ?N"
  then show ?L
  proof
    assume ?H
    then obtain before k after where keys: "keys = before @ k # after"
      and x: "lookup1 lc ob k = Some v"
      and miss: "\<forall>k' \<in> set before. lookup1 lc ob k' = None"
      by blast
    from miss have "pick1_row lc ob (before @ k # after) = pick1_row lc ob (k # after)"
      by (rule pick1_row_skip)
    with x keys show ?L by (simp add: pick1_row.simps)
  next
    assume N: ?N
    then have "pick1_row lc ob (keys @ []) = pick1_row lc ob []" by (intro pick1_row_skip) blast
    with N show ?L by (simp add: pick1_row.simps)
  qed
qed

text \<open>
  The table of src/unnamed/part_001 gives, for a lower-cased name, the last header in the
  order of \<open>Object.keys\<close> that has this name when trimmed and lower-cased.
\<close>

lemma keyMap_get:
  "obj_get (keyMap lc row) x = find (\<lambda>h. lc (trim h) = x) (rev (map fst (obj_entries row)))"
proof -
  have fold_eq: "(\<lambda>k m. store m (lc (trim k)) k) = (\<lambda>k m. if False then m else store m (lc (trim k)) k)"
    by simp
  show ?thesis
    unfolding obj_get_def keyMap_def
    by (subst fold_eq, subst fold_store_lookup) (auto split: option.splits)
qed

lemma lookup1_iff:
  "lookup1 lc ob k = Some v \<longleftrightarrow>
     (\<exists>x. obj_get ob k = Some x \<and> trim x \<noteq> [] \<and> v = trim x)
   \<or> ((\<forall>x. obj_get ob k = Some x \<longrightarrow> trim x = [])
       \<and> (\<exists>h x. find (\<lambda>h. lc (trim h) = lc (trim k)) (rev (map fst (obj_entries ob))) = Some h
              \<and> h \<noteq> [] \<and> obj_get ob h = Some x \<and> trim x \<noteq> [] \<and> v = trim x))"
  by (auto simp: lookup1_def keyMap_get split: option.splits)

text \<open>
  Against claim C5 as stated: \<open>pick\<close> of scripts/build-data.mjs raises for a missing row.
  \<open>Object.prototype.hasOwnProperty.call(undefined, k)\<close> throws a TypeError.
\<close>

theorem pick_raises_on_missing_row:
  "pick None [js ''Company Name''] = Inl TypeError"
  by (simp add: pick_def)

text \<open>
  Claim C5, as amended. For a row that is there, \<open>pick\<close> returns the trimmed value of the
  first alias, in the order of the list, that finds a value that is not blank after
  trimming, and the empty string when no alias does. In scripts/build-data.mjs an alias
  finds the value of the row's own column of that name. In src/unnamed/part_001 an alias
  \<open>k\<close> finds (\<open>lookup1\<close>) the value of the column named \<open>k\<close> or, when there is no such
  column or its value is blank, the value of the last column, in the order of
  \<open>Object.keys\<close>, whose name, trimmed and lower-cased, is the trimmed and lower-cased
  alias, if that name is not empty; this is stated of a row with no column named
  \<open>__keyMap\<close> and of aliases that are not \<open>__keyMap\<close> and are not, as they are or
  trimmed and lower-cased, the name of a property of \<open>Object.prototype\<close>. For a missing
  row, \<open>pick\<close> of part_001 returns the empty string; \<open>pick\<close> of scripts/build-data.mjs
  raises a TypeError, unless the list of aliases is empty.
\<close>

theorem pick_first_nonblank_alias:
  "(pick (Some ob) keys = Inr v \<longleftrightarrow>
       (\<exists>before k after x. keys = before @ k # after \<and> obj_get ob k = Some x \<and> trim x \<noteq> []
            \<and> v = trim x \<and> (\<forall>k' \<in> set before. \<forall>y. obj_get ob k' = Some y \<longrightarrow> trim y = []))
     \<or> (v = [] \<and> (\<forall>k \<in> set keys. \<forall>y. obj_get ob k = Some y \<longrightarrow> trim y = [])))
   \<and> pick None keys = (if keys = [] then Inr [] else Inl TypeError)
   \<and> (plain_row ob \<and> plain_aliases lc keys \<longrightarrow>
        (pick1 lc (Some ob) keys = v \<longleftrightarrow>
           (\<exists>before k after. keys = before @ k # after \<and> lookup1 lc ob k = Some v
                \<and> (\<forall>k' \<in> set before. lookup1 lc ob k' = None))
         \<or> (v = [] \<and> (\<forall>k \<in> set keys. lookup1 lc ob k = None))))
   \<and> (plain_row ob \<and> plain_aliases lc [a] \<longrightarrow>
        (lookup1 lc ob a = Some u \<longleftrightarrow>
           (\<exists>x. obj_get ob a = Some x \<and> trim x \<noteq> [] \<and> u = trim x)
         \<or> ((\<forall>x. obj_get ob a = Some x \<longrightarrow> trim x = [])
             \<and> (\<exists>h x. find (\<lambda>h. lc (trim h) = lc (trim a)) (rev (map fst (obj_entries ob))) = Some h
                    \<and> h \<noteq> [] \<and> obj_get ob h = Some x \<and> trim x \<noteq> [] \<and> u = trim x))))
   \<and> pick1 lc None keys = []"
proof (intro conjI impI)
  show "pick (Some ob) keys = Inr v \<longleftrightarrow>
       (\<exists>before k after x. keys = before @ k # after \<and> obj_get ob k = Some x \<and> trim x \<noteq> []
            \<and> v = trim x \<and> (\<forall>k' \<in> set before. \<forall>y. obj_get ob k' = Some y \<longrightarrow> trim y = []))
     \<or> (v = [] \<and> (\<forall>k \<in> set keys. \<forall>y. obj_get ob k = Some y \<longrightarrow> trim y = []))"
    using pick_row_iff [of ob keys v] by (simp add: pick_def)
  show "pick None keys = (if keys = [] then Inr [] else Inl TypeError)" by (simp add: pick_def)
  show "pick1 lc (Some ob) keys = v \<longleftrightarrow>
       (\<exists>before k after. keys = before @ k # after \<and> lookup1 lc ob k = Some v
            \<and> (\<forall>k' \<in> set before. lookup1 lc ob k' = None))
     \<or> (v = [] \<and> (\<forall>k \<in> set keys. lookup1 lc ob k = None))"
    using pick1_row_iff [of lc ob keys v] by (simp add: pick1_def)
  show "lookup1 lc ob a = Some u \<longleftrightarrow>
           (\<exists>x. obj_get ob a = Some x \<and> trim x \<noteq> [] \<and> u = trim x)
         \<or> ((\<forall>x. obj_get ob a = Some x \<longrightarrow> trim x = [])
             \<and> (\<exists>h x. find (\<lambda>h. lc (trim h) = lc (trim a)) (rev (map fst (obj_entries ob))) = Some h
                    \<and> h \<noteq> [] \<and> obj_get ob h = Some x \<and> trim x \<noteq> [] \<and> u = trim x))"
    by (rule lookup1_iff)
  show "pick1 lc None keys = []" by (simp add: pick1_def)
qed

theorem pick_first_nonblank_alias_witness:
  "pick (Some [(js ''Name'', js ''  ''), (js ''Company'', js '' Acme '')])
      [js ''Company Name'', js ''Name'', js ''Company''] = Inr (js ''Acme'')
   \<and> pick1 ascii_lower (Some [(js ''Name'', js ''  ''), (js ''company'', js '' Acme '')])
      [js ''Company Name'', js ''Name'', js ''Company''] = js ''Acme''
   \<and> lookup1 ascii_lower [(js ''Name'', js ''  ''), (js ''company'', js '' Acme '')] (js ''Company'')
      = Some (js ''Acme'')"
proof -
  let ?ob = "[(js ''Name'', js ''  ''), (js ''Company'', js '' Acme '')]"
  let ?ob1 = "[(js ''Name'', js ''  ''), (js ''company'', js '' Acme '')]"
  let ?keys = "[js ''Company Name'', js ''Name'', js ''Company'']"
  have a: "?keys = [js ''Company Name'', js ''Name''] @ js ''Company'' # []
       \<and> obj_get ?ob (js ''Company'') = Some (js '' Acme '') \<and> trim (js '' Acme '') \<noteq> []
       \<and> js ''Acme'' = trim (js '' Acme '')
       \<and> (\<forall>k' \<in> set [js ''Company Name'', js ''Name'']. \<forall>y. obj_get ?ob k' = Some y \<longrightarrow> trim y = [])"
    by (simp add: csv_eval)
  have plain: "plain_row ?ob1 \<and> plain_aliases ascii_lower ?keys"
    "plain_row ?ob1 \<and> plain_aliases ascii_lower [js ''Company'']"
    by (simp_all add: plain_eval csv_eval ascii_lower_def)
  have c: "(\<forall>x. obj_get ?ob1 (js ''Company'') = Some x \<longrightarrow> trim x = [])
       \<and> find (\<lambda>h. ascii_lower (trim h) = ascii_lower (trim (js ''Company''))) (rev (map fst (obj_entries ?ob1)))
           = Some (js ''company'')
       \<and> js ''company'' \<noteq> [] \<and> obj_get ?ob1 (js ''company'') = Some (js '' Acme '')
       \<and> trim (js '' Acme '') \<noteq> [] \<and> js ''Acme'' = trim (js '' Acme '')"
    by (simp add: run1_eval)
  from pick_first_nonblank_alias [of ?ob1 ?keys "js ''Acme''" ascii_lower "js ''Company''" "js ''Acme''",
      THEN conjunct2, THEN conjunct2, THEN conjunct2, THEN conjunct1] plain(2) c
  have l: "lookup1 ascii_lower ?ob1 (js ''Company'') = Some (js ''Acme'')" by blast
  have b: "?keys = [js ''Company Name'', js ''Name''] @ js ''Company'' # []
       \<and> (\<forall>k' \<in> set [js ''Company Name'', js ''Name'']. lookup1 ascii_lower ?ob1 k' = None)"
    by (simp add: run1_eval)
  from a have "pick (Some ?ob) ?keys = Inr (js ''Acme'')"
    using pick_first_nonblank_alias [of ?ob ?keys "js ''Acme''", THEN conjunct1] by blast
  moreover from b l plain(1) have "pick1 ascii_lower (Some ?ob1) ?keys = js ''Acme''"
    using pick_first_nonblank_alias [of ?ob1 ?keys "js ''Acme''" ascii_lower, THEN conjunct2, THEN conjunct2, THEN conjunct1]
    by blast
  ultimately show ?thesis using l by blast
qed

section \<open>keyify\<close>

lemma trim_infix: "\<exists>a b. s = a @ trim s @ b"
proof -
  let ?t = "dropWhile is_space s"
  have 1: "s = takeWhile is_space s @ ?t" by simp
  have "rev ?t = takeWhile is_space (rev ?t) @ dropWhile is_space (rev ?t)" by simp
  then have "?t = rev (dropWhile is_space (rev ?t)) @ rev (takeWhile is_space (rev ?t))"
    by (metis rev_append rev_rev_ident)
  then have "?t = trim s @ rev (takeWhile is_space (rev ?t))" by (simp add: trim_def)
  with 1 show ?thesis by metis
qed

lemma spaced_Cons: "spaced (c # s) \<Longrightarrow> spaced s"
  by (cases s) auto

lemma spaced_append: "spaced (a @ b) \<Longrightarrow> spaced a \<and> spaced b"
proof (induction a rule: spaced.induct)
  case 1
  then show ?case by simp
next
  case (2 c)
  then show ?case by (auto dest: spaced_Cons)
next
  case (3 c d s)
  then show ?case by auto
qed

lemma spaced_trim: "spaced s \<Longrightarrow> spaced (trim s)"
proof -
  assume s: "spaced s"
  obtain a b where "s = a @ trim s @ b" using trim_infix by blast
  with s have "spaced (a @ trim s @ b)" by simp
  then show ?thesis using spaced_append by blast
qed

lemma space_runs_Nil_iff: "space_runs r s = [] \<longleftrightarrow> s = []"
  by (induction r s rule: space_runs.induct) auto

lemma hd_space_runs:
  "is_space r \<Longrightarrow> s \<noteq> [] \<Longrightarrow> is_space (hd (space_runs r s)) \<longleftrightarrow> is_space (hd s)"
  by (induction r s rule: space_runs.induct) auto

lemma spaced_hd: "s \<noteq> [] \<Longrightarrow> \<not> (is_space c \<and> is_space (hd s)) \<Longrightarrow> spaced s \<Longrightarrow> spaced (c # s)"
  by (cases s) auto

lemma spaced_space_runs: "is_space r \<Longrightarrow> spaced (space_runs r s)"
proof (induction r s rule: space_runs.induct)
  case (1 r)
  then show ?case by simp
next
  case (2 r c)
  then show ?case by simp
next
  case (3 r c d s)
  have ne: "space_runs r (d # s) \<noteq> []" by (simp add: space_runs_Nil_iff)
  have hd: "is_space (hd (space_runs r (d # s))) \<longleftrightarrow> is_space d"
    using hd_space_runs [OF 3(4), of "d # s"] by simp
  show ?case
  proof (cases "is_space c")
    case False
    with 3 ne hd show ?thesis by (auto intro!: spaced_hd)
  next
    case True
    show ?thesis
    proof (cases "is_space d")
      case False
      with True 3 ne hd show ?thesis by (auto intro!: spaced_hd)
    next
      case d: True
      with True 3 show ?thesis by simp
    qed
  qed
qed

lemma set_space_runs: "set (space_runs r s) \<subseteq> {c \<in> set s. \<not> is_space c} \<union> {r}"
  by (induction r s rule: space_runs.induct) auto

lemma space_runs_unchanged:
  "spaced s \<Longrightarrow> \<forall>c \<in> set s. is_space c \<longrightarrow> c = r \<Longrightarrow> space_runs r s = s"
  by (induction r s rule: space_runs.induct) auto

lemma set_keyify_chars: "c \<in> set (keyify_chars s) \<Longrightarrow> is_lower_digit c \<or> is_space c"
  by (auto simp: keyify_chars_def is_space_def is_lower_digit_def)

lemma keyify_chars_unchanged:
  "\<forall>c \<in> set s. is_lower_digit c \<or> c = 32 \<Longrightarrow> keyify_chars s = s"
proof -
  assume a: "\<forall>c \<in> set s. is_lower_digit c \<or> c = 32"
  have 1: "map (\<lambda>c. if c = 160 then 32 else c) s = s"
    using a by (intro map_idI) (auto simp: is_lower_digit_def)
  have 2: "map (\<lambda>c. if c = 8220 \<or> c = 8221 then 34 else c) s = s"
    using a by (intro map_idI) (auto simp: is_lower_digit_def)
  have 3: "map (\<lambda>c. if c = 8216 \<or> c = 8217 then 39 else c) s = s"
    using a by (intro map_idI) (auto simp: is_lower_digit_def)
  have 4: "filter (\<lambda>c. is_lower_digit c \<or> is_space c \<or> c = 45) s = s"
    using a by (intro filter_True) (auto simp: is_space_def)
  have 5: "map (\<lambda>c. if c = 45 \<or> c = 95 then 32 else c) s = s"
    using a by (intro map_idI) (auto simp: is_lower_digit_def)
  show ?thesis by (simp add: keyify_chars_def 1 2 3 4 5)
qed

lemma keyify_shape:
  "(\<forall>c \<in> set (keyify lc s). is_lower_digit c \<or> c = 32) \<and> spaced (keyify lc s)
   \<and> trim (keyify lc s) = keyify lc s"
proof -
  let ?k = "keyify_chars (norm lc s)"
  have sp: "is_space 32" by (simp add: is_space_def)
  have "set (space_runs 32 ?k) \<subseteq> {c \<in> set ?k. \<not> is_space c} \<union> {32}" by (rule set_space_runs)
  then have "\<forall>c \<in> set (space_runs 32 ?k). is_lower_digit c \<or> c = 32"
    using set_keyify_chars by blast
  then have 1: "\<forall>c \<in> set (keyify lc s). is_lower_digit c \<or> c = 32"
    unfolding keyify_def using set_trim_subset by blast
  have 2: "spaced (keyify lc s)"
    unfolding keyify_def by (intro spaced_trim spaced_space_runs sp)
  have 3: "trim (keyify lc s) = keyify lc s" by (simp add: keyify_def trim_idem)
  from 1 2 3 show ?thesis by blast
qed

text \<open>
  Claim C8. \<open>keyify\<close> is idempotent. \<open>toLowerCase\<close> is the parameter \<open>lc\<close>; all that the
  proof needs of it is that it leaves a string of lower-case letters a to z, digits and
  spaces as it is, which the case mapping of JavaScript does.
\<close>

theorem keyify_idempotent:
  assumes "\<And>t. \<forall>c \<in> set t. is_lower_digit c \<or> c = 32 \<Longrightarrow> lc t = t"
  shows "keyify lc (keyify lc s) = keyify lc s"
proof -
  let ?K = "keyify lc s"
  from keyify_shape [of lc s] have chars: "\<forall>c \<in> set ?K. is_lower_digit c \<or> c = 32"
    and sp: "spaced ?K" and tr: "trim ?K = ?K" by blast+
  have "norm lc ?K = ?K" by (simp add: norm_def tr assms [OF chars])
  moreover have "keyify_chars ?K = ?K" using chars by (rule keyify_chars_unchanged)
  moreover have "space_runs 32 ?K = ?K"
    using sp chars by (intro space_runs_unchanged) (auto simp: is_lower_digit_def is_space_def)
  ultimately show ?thesis using tr by (simp add: keyify_def [of lc ?K])
qed

lemma ascii_lower_fixes: "\<forall>c \<in> set t. is_lower_digit c \<or> c = 32 \<Longrightarrow> ascii_lower t = t"
  unfolding ascii_lower_def by (intro map_idI) (auto simp: is_lower_digit_def)

theorem keyify_idempotent_witness:
  "keyify ascii_lower (js ''  Slow--Onboarding_ (it is   GREAT!)  '') = js ''slow onboarding it is great''
   \<and> keyify ascii_lower (keyify ascii_lower (js ''  Slow--Onboarding_ (it is   GREAT!)  ''))
     = js ''slow onboarding it is great''"
proof -
  have v: "keyify ascii_lower (js ''  Slow--Onboarding_ (it is   GREAT!)  '') = js ''slow onboarding it is great''"
    by (simp add: keyify_eval)
  from keyify_idempotent [of ascii_lower "js ''  Slow--Onboarding_ (it is   GREAT!)  ''", OF ascii_lower_fixes]
  show ?thesis by (simp only: v)
qed

section \<open>Round trip\<close>

lemma scan_unquoted:
  "\<forall>c \<in> set f. c \<noteq> DQUOTE \<and> c \<noteq> COMMA \<and> c \<noteq> CR \<and> c \<noteq> LF
   \<Longrightarrow> scan rows row cur False (f @ rest) = scan rows row (cur @ f) False rest"
  by (induction f arbitrary: cur) simp_all

lemma escape_simps:
  "escape [] = []"
  "escape (DQUOTE # f) = DQUOTE # DQUOTE # escape f"
  "c \<noteq> DQUOTE \<Longrightarrow> escape (c # f) = c # escape f"
  by (simp_all add: escape_def)

lemma scan_quoted:
  "rest = [] \<or> hd rest \<noteq> DQUOTE
   \<Longrightarrow> scan rows row cur True (escape f @ DQUOTE # rest) = scan rows row (cur @ f) False rest"
proof (induction f arbitrary: cur)
  case Nil
  then show ?case by (auto simp: escape_simps)
next
  case (Cons c f)
  show ?case
  proof (cases "c = DQUOTE")
    case True
    have "scan rows row cur True (escape (c # f) @ DQUOTE # rest)
          = scan rows row (cur @ [DQUOTE]) True (escape f @ DQUOTE # rest)"
      by (simp add: True escape_simps)
    also have "\<dots> = scan rows row ((cur @ [DQUOTE]) @ f) False rest"
      using Cons.prems by (rule Cons.IH)
    finally show ?thesis by (simp add: True)
  next
    case False
    have "scan rows row cur True (escape (c # f) @ DQUOTE # rest)
          = scan rows row (cur @ [c]) True (escape f @ DQUOTE # rest)"
      using False by (simp add: escape_simps)
    also have "\<dots> = scan rows row ((cur @ [c]) @ f) False rest"
      using Cons.prems by (rule Cons.IH)
    finally show ?thesis by simp
  qed
qed

lemma scan_field:
  assumes "rest = [] \<or> hd rest \<noteq> DQUOTE"
  shows "scan rows row [] False (quote_field f @ rest) = scan rows row f False rest"
proof (cases "needs_quotes f")
  case True
  then have "scan rows row [] False (quote_field f @ rest)
      = scan rows row [] True (escape f @ DQUOTE # rest)"
    by (simp add: quote_field_def)
  also have "\<dots> = scan rows row ([] @ f) False rest" using assms by (rule scan_quoted)
  finally show ?thesis by simp
next
  case False
  then have "\<forall>c \<in> set f. c \<noteq> DQUOTE \<and> c \<noteq> COMMA \<and> c \<noteq> CR \<and> c \<noteq> LF"
    by (auto simp: needs_quotes_def list_ex_iff)
  from scan_unquoted [OF this, of rows row "[]" rest] False show ?thesis
    by (simp add: quote_field_def)
qed

lemma scan_row:
  "scan rows row [] False (join COMMA (map quote_field (f # fs)) @ CR # LF # rest)
   = scan (if nonblank (row @ f # fs) then rows @ [row @ f # fs] else rows) [] [] False rest"
proof (induction fs arbitrary: row f)
  case Nil
  have "scan rows row [] False (quote_field f @ CR # LF # rest) = scan rows row f False (CR # LF # rest)"
    by (rule scan_field) (simp add: CR_def DQUOTE_def)
  then show ?case
    by (simp add: nonblank_def list_ex_iff CR_def LF_def DQUOTE_def COMMA_def)
next
  case (Cons g gs)
  have "scan rows row [] False (quote_field f @ COMMA # join COMMA (map quote_field (g # gs)) @ CR # LF # rest)
        = scan rows row f False (COMMA # join COMMA (map quote_field (g # gs)) @ CR # LF # rest)"
    by (rule scan_field) (simp add: COMMA_def DQUOTE_def)
  also have "\<dots> = scan rows (row @ [f]) [] False (join COMMA (map quote_field (g # gs)) @ CR # LF # rest)"
    by (simp add: COMMA_def DQUOTE_def LF_def CR_def)
  also have "\<dots> = scan (if nonblank ((row @ [f]) @ g # gs) then rows @ [(row @ [f]) @ g # gs] else rows)
                       [] [] False rest"
    by (rule Cons.IH)
  finally show ?case by simp
qed

lemma scan_serialize:
  "\<forall>r \<in> set rs. r \<noteq> []
   \<Longrightarrow> scan rows [] [] False (serialize rs @ rest) = scan (rows @ filter nonblank rs) [] [] False rest"
proof (induction rs arbitrary: rows)
  case Nil
  then show ?case by (simp add: serialize_def)
next
  case (Cons r rs)
  then obtain f fs where r: "r = f # fs" by (cases r) auto
  have "scan rows [] [] False (serialize (r # rs) @ rest)
        = scan rows [] [] False (join COMMA (map quote_field (f # fs)) @ CR # LF # (serialize rs @ rest))"
    by (simp add: serialize_def serialize_row_def r)
  also have "\<dots> = scan (if nonblank ([] @ f # fs) then rows @ [[] @ f # fs] else rows) [] [] False
                       (serialize rs @ rest)"
    by (rule scan_row)
  also have "\<dots> = scan ((if nonblank r then rows @ [r] else rows) @ filter nonblank rs) [] [] False rest"
    using Cons.prems by (intro Cons.IH [THEN trans]) (simp_all add: r)
  finally show ?case by simp
qed

lemma scan_rows_serialize:
  "\<forall>r \<in> set rs. r \<noteq> [] \<Longrightarrow> scan_rows (serialize rs) = filter nonblank rs"
  using scan_serialize [of rs "[]" "[]"] by (simp add: scan_rows_def)


lemma scan_last_row:
  "scan rows row [] False (join COMMA (map quote_field (f # fs)))
   = (rows, row @ butlast (f # fs), last (f # fs))"
proof (induction fs arbitrary: row f)
  case Nil
  have "scan rows row [] False (quote_field f @ []) = scan rows row f False []"
    by (rule scan_field) simp
  then show ?case by simp
next
  case (Cons g gs)
  have "scan rows row [] False (quote_field f @ COMMA # join COMMA (map quote_field (g # gs)))
        = scan rows row f False (COMMA # join COMMA (map quote_field (g # gs)))"
    by (rule scan_field) (simp add: COMMA_def DQUOTE_def)
  also have "\<dots> = scan rows (row @ [f]) [] False (join COMMA (map quote_field (g # gs)))"
    by (simp add: COMMA_def DQUOTE_def LF_def CR_def)
  also have "\<dots> = (rows, (row @ [f]) @ butlast (g # gs), last (g # gs))"
    by (rule Cons.IH)
  finally show ?case by simp
qed

lemma scan_rows_serialize_open:
  assumes "\<forall>r \<in> set rs. r \<noteq> []" "rs \<noteq> []" "nonblank (last rs)"
  shows "scan_rows (serialize_open rs) = filter nonblank rs"
proof -
  from assms(1,2) obtain f fs where l: "last rs = f # fs"
    by (cases "last rs") (auto dest: last_in_set)
  have b: "\<forall>r \<in> set (butlast rs). r \<noteq> []" using assms(1) by (auto dest: in_set_butlastD)
  have "serialize_open rs = serialize (butlast rs) @ join COMMA (map quote_field (last rs))"
    using assms(2) by (cases rs) (simp_all only: serialize_open_def list.case, simp)
  then have "scan [] [] [] False (serialize_open rs)
        = scan [] [] [] False (serialize (butlast rs) @ join COMMA (map quote_field (f # fs)))"
    by (simp only: l)
  also have "\<dots> = scan ([] @ filter nonblank (butlast rs)) [] [] False (join COMMA (map quote_field (f # fs)))"
    using b by (rule scan_serialize)
  also have "\<dots> = (filter nonblank (butlast rs), [] @ butlast (f # fs), last (f # fs))"
    by (simp only: scan_last_row append_Nil)
  finally have s: "scan [] [] [] False (serialize_open rs)
      = (filter nonblank (butlast rs), butlast (f # fs), last (f # fs))" by simp
  have push: "last (f # fs) \<noteq> [] \<or> butlast (f # fs) \<noteq> []"
  proof (rule ccontr)
    assume "\<not> (last (f # fs) \<noteq> [] \<or> butlast (f # fs) \<noteq> [])"
    then have "butlast (f # fs) @ [last (f # fs)] = [[]]" by simp
    moreover have bl: "butlast (f # fs) @ [last (f # fs)] = f # fs"
      by (rule append_butlast_last_id) simp
    ultimately have "f # fs = [[]]" by simp
    with assms(3) l show False by (simp add: nonblank_def trim_def)
  qed
  have "scan_rows (serialize_open rs) = filter nonblank (butlast rs) @ [butlast (f # fs) @ [last (f # fs)]]"
    unfolding scan_rows_def s using push by auto
  also have "butlast (f # fs) @ [last (f # fs)] = last rs"
    unfolding l by (rule append_butlast_last_id) simp
  also have "filter nonblank (butlast rs) @ [last rs] = filter nonblank (butlast rs @ [last rs])"
    using assms(3) by simp
  also have "butlast rs @ [last rs] = rs" using assms(2) by simp
  finally show ?thesis .
qed

lemma upt_shift: "[n..<n + length (h # hs)] = n # [Suc n..<Suc n + length hs]"
  by (subst upt_rec) simp

lemma fold_headers:
  assumes "distinct hs" "set hs \<inter> fst ` set acc = {}" "[] \<notin> set hs" "js ''__proto__'' \<notin> set hs"
  shows "fold (\<lambda>(i, h) ob. if h = [] then ob else obj_put ob h (trim (cell r i))) (enumerate n hs) acc
         = acc @ zip hs (map (\<lambda>i. trim (cell r i)) [n..<n + length hs])"
  using assms
proof (induction hs arbitrary: n acc)
  case Nil
  then show ?case by simp
next
  case (Cons h hs)
  let ?F = "\<lambda>(i, h) ob. if h = [] then ob else obj_put ob h (trim (cell r i))"
  let ?v = "trim (cell r n)"
  have hne: "h \<noteq> []" using Cons.prems(3) by auto
  have put: "obj_put acc h ?v = acc @ [(h, ?v)]"
    using Cons.prems by (auto simp: obj_put_def store_def)
  have "fold ?F (enumerate n (h # hs)) acc = fold ?F (enumerate (Suc n) hs) (acc @ [(h, ?v)])"
    using hne by (simp add: put)
  also have "\<dots> = (acc @ [(h, ?v)]) @ zip hs (map (\<lambda>i. trim (cell r i)) [Suc n..<Suc n + length hs])"
    using Cons.prems by (intro Cons.IH) auto
  also have "\<dots> = acc @ zip (h # hs) (map (\<lambda>i. trim (cell r i)) [n..<n + length (h # hs)])"
    by (simp only: upt_shift list.map zip_Cons_Cons append_assoc append_Cons append_Nil)
  finally show ?case .
qed

lemma fold_headers1:
  assumes "distinct hs" "set hs \<inter> fst ` set acc = {}" "js ''__proto__'' \<notin> set hs"
  shows "fold (\<lambda>(i, h) ob. obj_put ob h (trim (cell r i))) (enumerate n hs) acc
         = acc @ zip hs (map (\<lambda>i. trim (cell r i)) [n..<n + length hs])"
  using assms
proof (induction hs arbitrary: n acc)
  case Nil
  then show ?case by simp
next
  case (Cons h hs)
  let ?F = "\<lambda>(i, h) ob. obj_put ob h (trim (cell r i))"
  let ?v = "trim (cell r n)"
  have put: "obj_put acc h ?v = acc @ [(h, ?v)]"
    using Cons.prems by (auto simp: obj_put_def store_def)
  have "fold ?F (enumerate n (h # hs)) acc = fold ?F (enumerate (Suc n) hs) (acc @ [(h, ?v)])"
    by (simp add: put)
  also have "\<dots> = (acc @ [(h, ?v)]) @ zip hs (map (\<lambda>i. trim (cell r i)) [Suc n..<Suc n + length hs])"
    using Cons.prems by (intro Cons.IH) auto
  also have "\<dots> = acc @ zip (h # hs) (map (\<lambda>i. trim (cell r i)) [n..<n + length (h # hs)])"
    by (simp only: upt_shift list.map zip_Cons_Cons append_assoc append_Cons append_Nil)
  finally show ?case .
qed

lemma cells_trimmed:
  assumes "\<forall>v \<in> set r. trim v = v"
  shows "map (\<lambda>i. trim (cell r i)) [0..<length r] = r"
proof -
  have "map (\<lambda>i. trim (cell r i)) [0..<length r] = map (\<lambda>i. r ! i) [0..<length r]"
    using assms by (intro map_cong refl) (simp add: cell_def)
  then show ?thesis by (simp add: map_nth)
qed

lemma mk_row_zip:
  assumes "distinct hs" "[] \<notin> set hs" "js ''__proto__'' \<notin> set hs"
    and "length r = length hs" "\<forall>v \<in> set r. trim v = v"
  shows "mk_row hs r = zip hs r" "mk_row1 hs r = zip hs r"
proof -
  show "mk_row hs r = zip hs r"
    unfolding mk_row_def using fold_headers [of hs "[]" r 0] assms cells_trimmed [of r] by simp
  show "mk_row1 hs r = zip hs r"
    unfolding mk_row1_def using fold_headers1 [of hs "[]" r 0] assms cells_trimmed [of r] by simp
qed

lemmas serialize_eval =
  serialize_def serialize_row_def quote_field_def escape_def needs_quotes_def

text \<open>
  Against claim C3 as stated: \<open>parseCSV\<close> trims every cell and drops every blank row, so
  a cell with white space at an end, and a row of empty cells, do not come back.
\<close>

theorem round_trip_loses_outer_space:
  "parseCSV (serialize [[js ''a'', js ''b''], [js '' x'', js ''y, z'']])
     = [[(js ''a'', js ''x''), (js ''b'', js ''y, z'')]]
   \<and> parseCSV (serialize [[js ''a'', js ''b''], [js '''', js '' '']]) = []"
  by (simp add: serialize_eval csv_eval)

text \<open>
  Claim C3, as amended. Take a header row of pairwise different names, none empty, none
  with white space at an end, none \<open>__proto__\<close>, and data rows that each have as many
  cells as the header, no cell with white space at an end, and a cell that is not empty.
  Cells may hold commas, double quotes and line breaks. Then \<open>parseCSV\<close>, of
  scripts/build-data.mjs and of src/unnamed/part_001, maps the serialized text, with or
  without the line break after the last row, to the data rows: each parsed row holds,
  under the header names in order, the cells of its row.
\<close>

theorem round_trip:
  assumes "hs \<noteq> []" "distinct hs"
    and "\<forall>h \<in> set hs. h \<noteq> [] \<and> trim h = h \<and> h \<noteq> js ''__proto__''"
    and "\<forall>r \<in> set rs. length r = length hs \<and> (\<forall>v \<in> set r. trim v = v) \<and> (\<exists>v \<in> set r. v \<noteq> [])"
  shows "parseCSV (serialize (hs # rs)) = map (zip hs) rs
       \<and> parseCSV1 (serialize (hs # rs)) = map (zip hs) rs
       \<and> parseCSV (serialize_open (hs # rs)) = map (zip hs) rs
       \<and> parseCSV1 (serialize_open (hs # rs)) = map (zip hs) rs
       \<and> map (\<lambda>ob. map (obj_get ob) hs) (parseCSV (serialize (hs # rs))) = map (map Some) rs"
proof -
  have nb_hs: "nonblank hs"
  proof -
    from assms(1) obtain h where "h \<in> set hs" by (cases hs) auto
    with assms(3) have "h \<in> set hs \<and> trim h \<noteq> []" by auto
    then show ?thesis by (auto simp: nonblank_def list_ex_iff)
  qed
  have nb_r: "nonblank r" if "r \<in> set rs" for r
    using that assms(4) by (fastforce simp: nonblank_def list_ex_iff)
  have ne: "\<forall>r \<in> set (hs # rs). r \<noteq> []"
    using assms(1,4) by auto
  have "scan_rows (serialize (hs # rs)) = filter nonblank (hs # rs)"
    using ne by (rule scan_rows_serialize)
  also have "\<dots> = hs # rs" using nb_hs nb_r by (simp add: filter_id_conv)
  finally have rows: "scan_rows (serialize (hs # rs)) = hs # rs" .
  have "nonblank (last (hs # rs))" using nb_hs nb_r by (cases "rs = []") auto
  with ne have "scan_rows (serialize_open (hs # rs)) = filter nonblank (hs # rs)"
    by (intro scan_rows_serialize_open) simp_all
  also have "\<dots> = hs # rs" using nb_hs nb_r by (simp add: filter_id_conv)
  finally have rows_open: "scan_rows (serialize_open (hs # rs)) = hs # rs" .
  have th: "map trim hs = hs" using assms(3) by (simp add: map_idI)
  have row: "mk_row hs r = zip hs r" "mk_row1 hs r = zip hs r" if "r \<in> set rs" for r
    using that assms by (auto intro!: mk_row_zip)
  have 1: "parseCSV (serialize (hs # rs)) = map (zip hs) rs"
    by (simp add: parseCSV_def rows th row)
  have keep: "filter (\<lambda>r. \<exists>v \<in> set r. trim v \<noteq> []) rs = rs"
    using nb_r by (simp add: filter_id_conv nonblank_def list_ex_iff)
  have 2: "parseCSV1 (serialize (hs # rs)) = map (zip hs) rs"
    by (simp add: parseCSV1_def rows th row keep)
  have 4: "parseCSV (serialize_open (hs # rs)) = map (zip hs) rs"
    by (simp add: parseCSV_def rows_open th row)
  have 5: "parseCSV1 (serialize_open (hs # rs)) = map (zip hs) rs"
    by (simp add: parseCSV1_def rows_open th row keep)
  have "map (obj_get (zip hs r)) hs = map Some r" if "r \<in> set rs" for r
  proof -
    from that assms(4) have len: "length r = length hs" by simp
    show ?thesis
    proof (rule nth_equalityI)
      show "length (map (obj_get (zip hs r)) hs) = length (map Some r)" by (simp add: len)
      fix i assume "i < length (map (obj_get (zip hs r)) hs)"
      then have i: "i < length hs" by simp
      then have "map_of (zip hs r) (hs ! i) = Some (r ! i)"
        using assms(2) len by (intro map_of_zip_nth) simp_all
      with i len show "map (obj_get (zip hs r)) hs ! i = map Some r ! i"
        by (simp add: obj_get_def)
    qed
  qed
  then have 3: "map (\<lambda>ob. map (obj_get ob) hs) (parseCSV (serialize (hs # rs))) = map (map Some) rs"
    by (simp add: 1 comp_def)
  from 1 2 3 4 5 show ?thesis by blast
qed

theorem round_trip_witness:
  "parseCSV (serialize [[js ''Problem'', js ''Solution''],
                        [js ''Slow, \"very\" slow'', js ''Line\<newline>break''],
                        [js '''', js ''x'']])
   = [[(js ''Problem'', js ''Slow, \"very\" slow''), (js ''Solution'', js ''Line\<newline>break'')],
      [(js ''Problem'', js ''''), (js ''Solution'', js ''x'')]]"
proof -
  let ?hs = "[js ''Problem'', js ''Solution'']"
  let ?rs = "[[js ''Slow, \"very\" slow'', js ''Line\<newline>break''], [js '''', js ''x'']]"
  have 1: "?hs \<noteq> []" by simp
  have 2: "distinct ?hs" by (simp add: js_def)
  have 3: "\<forall>h \<in> set ?hs. h \<noteq> [] \<and> trim h = h \<and> h \<noteq> js ''__proto__''"
    by (simp add: csv_eval)
  have 4: "\<forall>r \<in> set ?rs. length r = length ?hs \<and> (\<forall>v \<in> set r. trim v = v) \<and> (\<exists>v \<in> set r. v \<noteq> [])"
    by (simp add: csv_eval)
  from round_trip [OF 1 2 3 4] show ?thesis by simp
qed

end
